theory Spec2Isabelle
  imports Main
begin

section \<open>The counter (looper.Ctr)\<close>

text \<open>
  \<^verbatim>\<open>type Ctr struct { Cur int; Max int }\<close>.  Go's \<^verbatim>\<open>int\<close> is modelled as an
  unbounded integer: a counter only moves in steps of one from 0, so the 64-bit
  wrap-around is out of reach of every run considered here.
\<close>

record Ctr =
  Cur :: int
  Max_ctr :: int

definition Incr :: "Ctr \<Rightarrow> Ctr" where
  "Incr ct = ct\<lparr>Cur := Cur ct + 1\<rparr>"

definition IsOverMax :: "Ctr \<Rightarrow> bool" where
  "IsOverMax ct = (Max_ctr ct > 0 \<and> Cur ct \<ge> Max_ctr ct)"

definition Set_ctr :: "Ctr \<Rightarrow> int \<Rightarrow> bool \<times> Ctr" where
  "Set_ctr ct cur = (if Cur ct = cur then (False, ct) else (True, ct\<lparr>Cur := cur\<rparr>))"

section \<open>The stepper's mutable state\<close>

text \<open>
  The fields of \<^verbatim>\<open>Stepper\<close> that \<^verbatim>\<open>runLevel\<close> reads and writes.  Every
  \<^verbatim>\<open>LoopStructure\<close> holds a pointer to its counter, which \<^verbatim>\<open>runLevel\<close>
  mutates; the counters therefore live in the state, one per time scale.  The type
  \<open>'t\<close> stands for \<^verbatim>\<open>etime.Times\<close>.  \<open>World\<close> is whatever else the callbacks
  close over.
\<close>

record ('t, 'w) Stepper =
  StopFlag :: bool
  StopNext :: bool
  StopLevel :: 't
  StepIterations :: int
  lastStoppedLevel :: int
  internalStop :: bool
  Counters :: "'t \<Rightarrow> Ctr"
  World :: 'w

section \<open>The loop configuration\<close>

text \<open>
  A named callback \<^verbatim>\<open>fun.Func()\<close> may do anything to the stepper and to the world
  it closes over: it is a state transformer.  A termination predicate
  (\<^verbatim>\<open>func() bool\<close>) reads the state.
\<close>

record ('t, 'w) NamedFunc =
  Name :: string
  Func_fn :: "('t, 'w) Stepper \<Rightarrow> ('t, 'w) Stepper"

record ('t, 'w) Phase =
  Duration :: int
  PhaseStart :: "('t, 'w) NamedFunc list"
  OnMillisecondEnd :: "('t, 'w) NamedFunc list"
  PhaseEnd :: "('t, 'w) NamedFunc list"

text \<open>
  \<open>IsDone\<close> is a Go map from names to predicates.  \<^verbatim>\<open>range\<close> over a map visits
  the entries in an order the language leaves unspecified; the list is the map's
  entries in the order one execution of the \<^verbatim>\<open>range\<close> visits them.
\<close>

record ('t, 'w) LoopStructure =
  OnStart :: "('t, 'w) NamedFunc list"
  Main :: "('t, 'w) NamedFunc list"
  OnEnd :: "('t, 'w) NamedFunc list"
  IsDone :: "(string \<times> (('t, 'w) Stepper \<Rightarrow> bool)) list"
  Phases :: "('t, 'w) Phase list"

text \<open>
  \<open>st = stepper.Loops.Stacks[stepper.Mode]\<close>: the stack of the selected mode.
  The loop manager and the mode are taken as fixed while the stepper runs, so the
  stack is a parameter of \<open>runLevel\<close> and the callbacks cannot change it.
  \<open>Loops\<close> is a map; a time scale of \<open>Order\<close> with no entry yields a nil
  pointer, whose dereference panics.
\<close>

record ('t, 'w) Stack =
  Order :: "'t list"
  Loops :: "'t \<rightharpoonup> ('t, 'w) LoopStructure"

section \<open>The observation: which callback ran, where and when\<close>

datatype kind = OnStartK | PhaseStartK nat | OnMillisecondEndK nat | PhaseEndK nat
  | MainK | OnEndK | IsDoneK

text \<open>
  \<open>Fired level cur kind name\<close>: the callback \<open>name\<close> of the list \<open>kind\<close> (for
  a phase list, of the phase with that index) of the level at depth \<open>level\<close> was
  called while that level's counter stood at \<open>cur\<close>.
\<close>

datatype event = Fired (ev_level: nat) (ev_cur: int) (ev_kind: kind) (ev_name: string)

datatype error = NilPointer

type_synonym ('t, 'w) run = "('t, 'w) Stepper \<times> event list"

definition setCur :: "'t \<Rightarrow> int \<Rightarrow> ('t, 'w) Stepper \<Rightarrow> ('t, 'w) Stepper" where
  "setCur time v s = s\<lparr>Counters := (Counters s)(time := (Counters s time)\<lparr>Cur := v\<rparr>)\<rparr>"

definition ctrCur :: "('t, 'w) Stepper \<Rightarrow> 't \<Rightarrow> int" where
  "ctrCur s time = Cur (Counters s time)"

definition ctrMax :: "('t, 'w) Stepper \<Rightarrow> 't \<Rightarrow> int" where
  "ctrMax s time = Max_ctr (Counters s time)"

text \<open>\<^verbatim>\<open>fun.Func()\<close>, observed.\<close>

definition fire :: "nat \<Rightarrow> 't \<Rightarrow> kind \<Rightarrow> ('t, 'w) NamedFunc \<Rightarrow> ('t, 'w) run \<Rightarrow> ('t, 'w) run" where
  "fire lvl time k h = (\<lambda>(s, tr). (Func_fn h s, tr @ [Fired lvl (ctrCur s time) k (Name h)]))"

text \<open>\<^verbatim>\<open>for _, fun := range funs { fun.Func() }\<close>\<close>

definition fireAll :: "nat \<Rightarrow> 't \<Rightarrow> kind \<Rightarrow> ('t, 'w) NamedFunc list \<Rightarrow> ('t, 'w) run \<Rightarrow> ('t, 'w) run" where
  "fireAll lvl time k hs x = fold (fire lvl time k) hs x"

section \<open>phaseLogic\<close>

text \<open>
  The body of the loop over \<^verbatim>\<open>loop.Phases\<close>; \<open>amount\<close> is the running sum
  before this phase, \<open>i\<close> the phase's index.  \<^verbatim>\<open>ctr.Cur\<close> is read through the
  pointer at each of the three tests.
\<close>

fun phaseLoop :: "nat \<Rightarrow> 't \<Rightarrow> int \<Rightarrow> nat \<Rightarrow> ('t, 'w) Phase list \<Rightarrow> ('t, 'w) run \<Rightarrow> ('t, 'w) run" where
  "phaseLoop lvl time amount i [] x = x"
| "phaseLoop lvl time amount i (phase # rest) x =
    (let amount' = amount + Duration phase;
         x1 = (if ctrCur (fst x) time = amount' - Duration phase
               then fireAll lvl time (PhaseStartK i) (PhaseStart phase) x else x);
         x2 = (if ctrCur (fst x1) time < amount'
               then fireAll lvl time (OnMillisecondEndK i) (OnMillisecondEnd phase) x1 else x1);
         x3 = (if ctrCur (fst x2) time = amount' - 1
               then fireAll lvl time (PhaseEndK i) (PhaseEnd phase) x2 else x2)
     in phaseLoop lvl time amount' (Suc i) rest x3)"

definition phaseLogic :: "nat \<Rightarrow> 't \<Rightarrow> ('t, 'w) LoopStructure \<Rightarrow> ('t, 'w) run \<Rightarrow> ('t, 'w) run" where
  "phaseLogic lvl time loop x = phaseLoop lvl time 0 0 (Phases loop) x"

section \<open>runLevel\<close>

text \<open>
  \<^verbatim>\<open>for name, fun := range loop.IsDone { if fun() { ... goto exitLoop } }\<close>: the
  predicates are called one after the other until the first that returns true.
  The result says whether one did.
\<close>

fun isDoneLoop :: "nat \<Rightarrow> 't \<Rightarrow> (string \<times> (('t, 'w) Stepper \<Rightarrow> bool)) list \<Rightarrow> ('t, 'w) run \<Rightarrow> bool \<times> event list" where
  "isDoneLoop lvl time [] (s, tr) = (False, tr)"
| "isDoneLoop lvl time ((name, f) # rest) (s, tr) =
    (if f s then (True, tr @ [Fired lvl (ctrCur s time) IsDoneK name])
     else isDoneLoop lvl time rest (s, tr @ [Fired lvl (ctrCur s time) IsDoneK name]))"

text \<open>Lines 55 to 59: the stop request of this level marks the interruption.\<close>

definition markStop :: "bool \<Rightarrow> nat \<Rightarrow> ('t, 'w) Stepper \<Rightarrow> ('t, 'w) Stepper" where
  "markStop stopAtLevel currentLevel s =
    (if StopFlag s \<and> stopAtLevel
     then s\<lparr>internalStop := True, lastStoppedLevel := int currentLevel\<rparr> else s)"

text \<open>Lines 65 to 72: the step countdown.\<close>

definition stepCount :: "bool \<Rightarrow> ('t, 'w) Stepper \<Rightarrow> ('t, 'w) Stepper" where
  "stepCount stopAtLevel s =
    (if StopNext s \<and> stopAtLevel then
       (let s' = s\<lparr>StepIterations := StepIterations s - 1\<rparr> in
        if StepIterations s' \<le> 0
        then s'\<lparr>StopNext := False, StopFlag := True, lastStoppedLevel := - 1\<rparr> else s')
     else s)"

text \<open>Lines 74 to 83: the start callbacks, unless an inner level was interrupted.\<close>

definition startWork :: "nat \<Rightarrow> 't \<Rightarrow> ('t, 'w) LoopStructure \<Rightarrow> ('t, 'w) run \<Rightarrow> ('t, 'w) run" where
  "startWork currentLevel time loop = (\<lambda>(s, tr).
    if int currentLevel \<ge> lastStoppedLevel s
    then fireAll currentLevel time OnStartK (OnStart loop) (s\<lparr>lastStoppedLevel := - 1\<rparr>, tr)
    else (s, tr))"

text \<open>Lines 110 to 115, the label \<^verbatim>\<open>exitLoop\<close>.\<close>

definition exitLoop :: "'t \<Rightarrow> ('t, 'w) run \<Rightarrow> (error + bool \<times> ('t, 'w) run) option" where
  "exitLoop time = (\<lambda>(s, tr).
     Some (Inr (True, (if \<not> internalStop s then setCur time 0 s else s), tr)))"

text \<open>
  \<^verbatim>\<open>runLevel(currentLevel)\<close>.  The loop runs for ever on a negative maximum with
  no predicate and no stop, so the function takes fuel: one unit for each pass of
  the loop and each recursive call; \<open>None\<close> means the fuel ran out.
  \<open>Some (Inl e)\<close> is a panic, \<open>Some (Inr (b, s, tr))\<close> the return of \<open>b\<close> in
  state \<open>s\<close> after the calls \<open>tr\<close>.  The two \<^verbatim>\<open>fmt.Println\<close> of the control
  flow are not part of the model.
\<close>

fun runLevel :: "nat \<Rightarrow> ('t, 'w) Stack \<Rightarrow> nat \<Rightarrow> ('t, 'w) run \<Rightarrow> (error + bool \<times> ('t, 'w) run) option" where
  "runLevel 0 st currentLevel x = None"
| "runLevel (Suc fuel) st currentLevel x =
    (if currentLevel \<ge> length (Order st) then Some (Inr (True, x))
     else
       let time = Order st ! currentLevel in
       case Loops st time of
         None \<Rightarrow> Some (Inl NilPointer)
       | Some loop \<Rightarrow>
          if ctrCur (fst x) time < ctrMax (fst x) time \<or> ctrMax (fst x) time < 0 then
            let stopAtLevel = (Order st ! currentLevel = StopLevel (fst x));
                s1 = markStop stopAtLevel currentLevel (fst x)
            in if internalStop s1 then Some (Inr (False, s1\<lparr>StopFlag := False\<rparr>, snd x))
               else
                 let s2 = stepCount (Order st ! currentLevel = StopLevel s1) s1;
                     x3 = startWork currentLevel time loop (s2, snd x);
                     x4 = phaseLogic currentLevel time loop x3
                 in case runLevel fuel st (currentLevel + 1) x4 of
                      None \<Rightarrow> None
                    | Some (Inl e) \<Rightarrow> Some (Inl e)
                    | Some (Inr (runComplete, x5)) \<Rightarrow>
                        if runComplete then
                          let x6 = fireAll currentLevel time MainK (Main loop) x5;
                              x7 = fireAll currentLevel time OnEndK (OnEnd loop) x6;
                              d = isDoneLoop currentLevel time (IsDone loop) x7
                          in if fst d then exitLoop time (setCur time 0 (fst x7), snd d)
                             else runLevel fuel st currentLevel
                                    (setCur time (ctrCur (fst x7) time + 1) (fst x7), snd d)
                        else runLevel fuel st currentLevel x5
          else exitLoop time x)"

text \<open>\<^verbatim>\<open>Run()\<close>: clear the internal stop and run from the top level.  The Go
  method returns nothing; the result of \<open>runLevel\<close> is kept here so that it can be
  spoken about.\<close>

definition Run :: "nat \<Rightarrow> ('t, 'w) Stack \<Rightarrow> ('t, 'w) run \<Rightarrow> (error + bool \<times> ('t, 'w) run) option" where
  "Run fuel st x = runLevel fuel st 0 ((fst x)\<lparr>internalStop := False\<rparr>, snd x)"

text \<open>\<^verbatim>\<open>Init\<close>, as far as the modelled fields go (\<open>etime.Run\<close> is the argument
  \<open>run\<close>).\<close>

definition Init :: "'t \<Rightarrow> ('t, 'w) Stepper \<Rightarrow> ('t, 'w) Stepper" where
  "Init run s = s\<lparr>StopLevel := run, lastStoppedLevel := - 1\<rparr>"

section \<open>Reading a result\<close>

definition trace_of :: "(error + bool \<times> ('t, 'w) run) option \<Rightarrow> event list" where
  "trace_of r = (case r of Some (Inr (b, s, tr)) \<Rightarrow> tr | _ \<Rightarrow> [])"

text \<open>Calling \<^verbatim>\<open>Run()\<close> again on what the previous call left behind.\<close>

definition resume :: "nat \<Rightarrow> ('t, 'w) Stack \<Rightarrow> (error + bool \<times> ('t, 'w) run) option
    \<Rightarrow> (error + bool \<times> ('t, 'w) run) option" where
  "resume fuel st r = (case r of Some (Inr (b, x)) \<Rightarrow> Run fuel st x | _ \<Rightarrow> r)"

text \<open>The predicates that one \<^verbatim>\<open>range\<close> over \<open>IsDone\<close> calls in state \<open>s\<close>: those
  before the first that holds, and that one.\<close>

fun evaluated :: "(string \<times> (('t, 'w) Stepper \<Rightarrow> bool)) list \<Rightarrow> ('t, 'w) Stepper
    \<Rightarrow> (string \<times> (('t, 'w) Stepper \<Rightarrow> bool)) list" where
  "evaluated [] s = []"
| "evaluated (p # ps) s = (if snd p s then [p] else p # evaluated ps s)"

section \<open>Configurations used as concrete inputs\<close>

text \<open>A callback that counts its calls in the world.\<close>

definition tally :: "string \<Rightarrow> (string, nat) NamedFunc" where
  "tally n = \<lparr>Name = n, Func_fn = (\<lambda>s. s\<lparr>World := Suc (World s)\<rparr>)\<rparr>"

definition plainLoop :: "string \<Rightarrow> (string, nat) LoopStructure" where
  "plainLoop n = \<lparr>OnStart = [tally (n @ ''.start'')], Main = [tally (n @ ''.main'')],
     OnEnd = [tally (n @ ''.end'')], IsDone = [], Phases = []\<rparr>"

text \<open>The stepper after \<^verbatim>\<open>Init\<close>, every counter at 0 with the maximum \<open>mx\<close> gives.\<close>

definition idle :: "(string \<Rightarrow> int) \<Rightarrow> (string, nat) Stepper" where
  "idle mx = \<lparr>StopFlag = False, StopNext = False, StopLevel = ''Run'', StepIterations = 0,
     lastStoppedLevel = - 1, internalStop = False,
     Counters = (\<lambda>t. \<lparr>Cur = 0, Max_ctr = mx t\<rparr>), World = 0\<rparr>"

definition oneLevel :: "(string, nat) Stack" where
  "oneLevel = \<lparr>Order = [''Trial''], Loops = [''Trial'' \<mapsto> plainLoop ''Trial'']\<rparr>"

text \<open>Two phases of durations 2 and 3.\<close>

definition phases23 :: "(string, nat) Phase list" where
  "phases23 =
    [\<lparr>Duration = 2, PhaseStart = [tally ''p0.start''], OnMillisecondEnd = [tally ''p0.tick''],
      PhaseEnd = [tally ''p0.end'']\<rparr>,
     \<lparr>Duration = 3, PhaseStart = [tally ''p1.start''], OnMillisecondEnd = [tally ''p1.tick''],
      PhaseEnd = [tally ''p1.end'']\<rparr>]"

definition loop23 :: "(string, nat) LoopStructure" where
  "loop23 = \<lparr>OnStart = [], Main = [], OnEnd = [], IsDone = [], Phases = phases23\<rparr>"

text \<open>An epoch of trials; the epoch has one phase of one tick.\<close>

definition plusPhase :: "(string, nat) Phase" where
  "plusPhase = \<lparr>Duration = 1, PhaseStart = [tally ''plus.start''], OnMillisecondEnd = [],
     PhaseEnd = []\<rparr>"

definition epochTrial :: "(string, nat) Stack" where
  "epochTrial = \<lparr>Order = [''Epoch'', ''Trial''],
     Loops = [''Epoch'' \<mapsto> (plainLoop ''Epoch'')\<lparr>Phases := [plusPhase]\<rparr>,
              ''Trial'' \<mapsto> plainLoop ''Trial'']\<rparr>"

text \<open>One level with two predicates that both hold, in the one visiting order and in
  the other.\<close>

definition twoDone :: "(string \<times> ((string, nat) Stepper \<Rightarrow> bool)) list \<Rightarrow> (string, nat) Stack" where
  "twoDone ps = \<lparr>Order = [''Trial''], Loops = [''Trial'' \<mapsto> (plainLoop ''Trial'')\<lparr>IsDone := ps\<rparr>]\<rparr>"

definition doneA :: "string \<times> ((string, nat) Stepper \<Rightarrow> bool)" where
  "doneA = (''a'', \<lambda>s. True)"

definition doneB :: "string \<times> ((string, nat) Stepper \<Rightarrow> bool)" where
  "doneB = (''b'', \<lambda>s. True)"

section \<open>Notions used to state the properties\<close>



definition hookEvents :: "event list \<Rightarrow> event list" where
  "hookEvents tr = filter (\<lambda>e. ev_kind e \<noteq> IsDoneK) tr"

definition observable :: "(error + bool \<times> ('t, 'w) run) option \<Rightarrow> (error + bool \<times> ('t, 'w) run) option" where
  "observable r = map_option (map_sum id (\<lambda>(b, s, tr). (b, s, hookEvents tr))) r"


definition beforeInner :: "nat \<Rightarrow> 't \<Rightarrow> ('t, 'w) LoopStructure \<Rightarrow> ('t, 'w) Stepper \<Rightarrow> ('t, 'w) run" where
  "beforeInner lvl time loop s =
     phaseLogic lvl time loop (startWork lvl time loop (stepCount (time = StopLevel s) s, []))"

definition afterInner :: "nat \<Rightarrow> 't \<Rightarrow> ('t, 'w) LoopStructure \<Rightarrow> ('t, 'w) Stepper \<Rightarrow> ('t, 'w) run" where
  "afterInner lvl time loop s =
     fireAll lvl time OnEndK (OnEnd loop) (fireAll lvl time MainK (Main loop) (s, []))"

definition doneEvents :: "nat \<Rightarrow> 't \<Rightarrow> (string \<times> (('t, 'w) Stepper \<Rightarrow> bool)) list \<Rightarrow> ('t, 'w) Stepper \<Rightarrow> event list" where
  "doneEvents lvl time ps s = map (\<lambda>p. Fired lvl (ctrCur s time) IsDoneK (fst p)) ps"

definition runsTo :: "('t, 'w) Stack \<Rightarrow> nat \<Rightarrow> ('t, 'w) Stepper \<Rightarrow> bool \<Rightarrow> ('t, 'w) Stepper \<Rightarrow> event list \<Rightarrow> bool" where
  "runsTo st d s b s' ev = (\<forall>tr. \<exists>fuel. runLevel fuel st d (s, tr) = Some (Inr (b, s', tr @ ev)))"

definition framed :: "('t, 'w) NamedFunc \<Rightarrow> bool" where
  "framed h = (\<forall>s. \<exists>w. Func_fn h s = s\<lparr>World := w\<rparr>)"

definition framedPhase :: "('t, 'w) Phase \<Rightarrow> bool" where
  "framedPhase p = (list_all framed (PhaseStart p) \<and> list_all framed (OnMillisecondEnd p)
     \<and> list_all framed (PhaseEnd p))"

definition framedLoop :: "('t, 'w) LoopStructure \<Rightarrow> bool" where
  "framedLoop loop = (list_all framed (OnStart loop) \<and> list_all framed (Main loop)
     \<and> list_all framed (OnEnd loop) \<and> list_all framedPhase (Phases loop))"

definition hookNames :: "nat \<Rightarrow> int \<Rightarrow> kind \<Rightarrow> ('t, 'w) NamedFunc list \<Rightarrow> event list" where
  "hookNames lvl c k hs = map (\<lambda>h. Fired lvl c k (Name h)) hs"

fun phaseEvents :: "nat \<Rightarrow> int \<Rightarrow> int \<Rightarrow> nat \<Rightarrow> ('t, 'w) Phase list \<Rightarrow> event list" where
  "phaseEvents lvl c amount i [] = []"
| "phaseEvents lvl c amount i (p # ps) =
     (if c = amount then hookNames lvl c (PhaseStartK i) (PhaseStart p) else [])
     @ (if c < amount + Duration p then hookNames lvl c (OnMillisecondEndK i) (OnMillisecondEnd p) else [])
     @ (if c = amount + Duration p - 1 then hookNames lvl c (PhaseEndK i) (PhaseEnd p) else [])
     @ phaseEvents lvl c (amount + Duration p) (Suc i) ps"

definition iterEvents :: "nat \<Rightarrow> ('t, 'w) LoopStructure \<Rightarrow> event list \<Rightarrow> int \<Rightarrow> event list" where
  "iterEvents d loop sub c =
     hookNames d c OnStartK (OnStart loop) @ phaseEvents d c 0 0 (Phases loop) @ sub
     @ hookNames d c MainK (Main loop) @ hookNames d c OnEndK (OnEnd loop)"

definition settled :: "('t, 'w) Stack \<Rightarrow> nat \<Rightarrow> ('t, 'w) Stepper \<Rightarrow> bool" where
  "settled st d s = (\<not> internalStop s \<and> lastStoppedLevel s = - 1
     \<and> ((StopFlag s \<or> StopNext s) \<longrightarrow> StopLevel s \<notin> set (drop d (Order st)))
     \<and> (\<forall>k. d \<le> k \<and> k < length (Order st) \<longrightarrow>
           ctrCur s (Order st ! k) = 0 \<and> 0 < ctrMax s (Order st ! k)))"

definition doneNames :: "nat \<Rightarrow> int \<Rightarrow> (string \<times> (('t, 'w) Stepper \<Rightarrow> bool)) list \<Rightarrow> event list" where
  "doneNames lvl c ps = map (\<lambda>p. Fired lvl c IsDoneK (fst p)) ps"

definition loopEvents :: "nat \<Rightarrow> ('t, 'w) LoopStructure \<Rightarrow> event list \<Rightarrow> int \<Rightarrow> int \<Rightarrow> event list" where
  "loopEvents d loop sub c m =
     concat (map (\<lambda>i. iterEvents d loop sub (int i) @ doneNames d (int i) (IsDone loop)) [nat c..<nat m])"

fun fullTrace :: "('t, 'w) Stack \<Rightarrow> ('t \<Rightarrow> int) \<Rightarrow> nat \<Rightarrow> 't list \<Rightarrow> event list" where
  "fullTrace st mx d [] = []"
| "fullTrace st mx d (t # ts) =
     (case Loops st t of None \<Rightarrow> []
      | Some loop \<Rightarrow> loopEvents d loop (fullTrace st mx (Suc d) ts) 0 (mx t))"

definition tame :: "('t, 'w) Stack \<Rightarrow> nat \<Rightarrow> bool" where
  "tame st d = (\<forall>k. d \<le> k \<and> k < length (Order st) \<longrightarrow>
     (case Loops st (Order st ! k) of None \<Rightarrow> False
      | Some loop \<Rightarrow> framedLoop loop \<and> (\<forall>p\<in>set (IsDone loop). \<forall>s. \<not> snd p s)))"

definition firedNames :: "nat \<Rightarrow> kind \<Rightarrow> event list \<Rightarrow> string list" where
  "firedNames lvl k tr = map ev_name (filter (\<lambda>e. ev_level e = lvl \<and> ev_kind e = k) tr)"


definition listOf :: "kind \<Rightarrow> ('t, 'w) LoopStructure \<Rightarrow> ('t, 'w) NamedFunc list" where
  "listOf k loop = (case k of OnStartK \<Rightarrow> OnStart loop | MainK \<Rightarrow> Main loop
     | OnEndK \<Rightarrow> OnEnd loop | _ \<Rightarrow> [])"


definition doneRounds :: "nat \<Rightarrow> event list \<Rightarrow> int set" where
  "doneRounds lvl tr = set (map ev_cur (filter (\<lambda>e. ev_level e = lvl \<and> ev_kind e = IsDoneK) tr))"

definition enough :: "string \<Rightarrow> int \<Rightarrow> string \<times> ((string, nat) Stepper \<Rightarrow> bool)" where
  "enough t j = (''enough'', \<lambda>s. j \<le> ctrCur s t)"

definition epochsUntil :: "int \<Rightarrow> (string, nat) Stack" where
  "epochsUntil j = \<lparr>Order = [''Epoch'', ''Trial''],
     Loops = [''Epoch'' \<mapsto> (plainLoop ''Epoch'')\<lparr>IsDone := [enough ''Epoch'' j]\<rparr>,
              ''Trial'' \<mapsto> plainLoop ''Trial'']\<rparr>"

definition maxEpoch :: "int \<Rightarrow> string \<Rightarrow> int" where
  "maxEpoch m t = (if t = ''Epoch'' then m else 2)"

definition haltedAt :: "'t \<Rightarrow> nat \<Rightarrow> int \<Rightarrow> 'w \<Rightarrow> ('t, 'w) Stepper \<Rightarrow> ('t, 'w) Stepper" where
  "haltedAt t d c w s = (setCur t c s)\<lparr>StopFlag := False, StopNext := False, StepIterations := 0,
     lastStoppedLevel := int d, internalStop := True, World := w\<rparr>"



fun isPhase :: "kind \<Rightarrow> bool" where
  "isPhase (PhaseStartK i) = True"
| "isPhase (OnMillisecondEndK i) = True"
| "isPhase (PhaseEndK i) = True"
| "isPhase k = False"

definition asidePhases :: "nat \<Rightarrow> event list \<Rightarrow> event list" where
  "asidePhases d tr = filter (\<lambda>e. \<not> (ev_level e < d \<and> isPhase (ev_kind e))) tr"




section \<open>Basic facts\<close>

lemma ctrCur_setCur [simp]: "ctrCur (setCur t v s) t' = (if t' = t then v else ctrCur s t')"
  by (simp add: ctrCur_def setCur_def)

lemma ctrMax_setCur [simp]: "ctrMax (setCur t v s) t' = ctrMax s t'"
  by (simp add: ctrMax_def setCur_def)

lemma ctrCur_World [simp]: "ctrCur (s\<lparr>World := w\<rparr>) t = ctrCur s t"
  by (simp add: ctrCur_def)

lemma ctrMax_World [simp]: "ctrMax (s\<lparr>World := w\<rparr>) t = ctrMax s t"
  by (simp add: ctrMax_def)

lemma setCur_same: "ctrCur s t = v \<Longrightarrow> setCur t v s = s"
  by (auto simp add: ctrCur_def setCur_def)

lemma setCur_twice [simp]: "setCur t v (setCur t u s) = setCur t v s"
  by (simp add: setCur_def)

lemma fire_pair:
  "fire lvl time k h (s, tr) = (Func_fn h s, tr @ [Fired lvl (ctrCur s time) k (Name h)])"
  by (simp add: fire_def)

lemma fireAll_Nil [simp]: "fireAll lvl time k [] x = x"
  by (simp add: fireAll_def)

lemma fireAll_Cons [simp]:
  "fireAll lvl time k (h # hs) x = fireAll lvl time k hs (fire lvl time k h x)"
  by (simp add: fireAll_def)

declare runLevel.simps [simp del]

lemmas config_defs = oneLevel_def epochTrial_def twoDone_def doneA_def doneB_def idle_def
  plainLoop_def tally_def plusPhase_def loop23_def phases23_def

lemmas step_defs = Run_def resume_def trace_of_def runLevel.simps markStop_def stepCount_def
  startWork_def phaseLogic_def exitLoop_def fire_pair ctrCur_def ctrMax_def setCur_def

section \<open>The suspension point\<close>

text \<open>
  C9.  When the check at the head of the loop finds an interruption marked (the
  internal stop is set, or the stop request names this level and marks it now),
  \<open>runLevel\<close> returns false at once: the trace is the one it was given, so no
  callback ran; counters and world are untouched; the stop flag is cleared, and
  \<open>lastStoppedLevel\<close> is not cleared (it is this depth when the mark is made
  here, and otherwise what it was).
\<close>

theorem suspension_point:
  assumes "currentLevel < length (Order st)"
    and "Loops st (Order st ! currentLevel) = Some loop"
    and "ctrCur s (Order st ! currentLevel) < ctrMax s (Order st ! currentLevel)
         \<or> ctrMax s (Order st ! currentLevel) < 0"
    and "internalStop s \<or> (StopFlag s \<and> Order st ! currentLevel = StopLevel s)"
  shows "runLevel (Suc fuel) st currentLevel (s, tr) =
     Some (Inr (False,
       s\<lparr>StopFlag := False, internalStop := True,
         lastStoppedLevel := (if StopFlag s \<and> Order st ! currentLevel = StopLevel s
                              then int currentLevel else lastStoppedLevel s)\<rparr>, tr))"
  using assms by (auto simp add: runLevel.simps markStop_def)

theorem suspension_point_witness:
  "runLevel 1 oneLevel 0 ((idle (\<lambda>t. 5))\<lparr>StopFlag := True, StopLevel := ''Trial''\<rparr>, []) =
     Some (Inr (False,
       (idle (\<lambda>t. 5))\<lparr>StopLevel := ''Trial'', internalStop := True, lastStoppedLevel := 0\<rparr>, []))"
  using suspension_point [of 0 oneLevel "plainLoop ''Trial''"
      "(idle (\<lambda>t. 5))\<lparr>StopFlag := True, StopLevel := ''Trial''\<rparr>" 0 "[]"]
  by (simp add: oneLevel_def idle_def ctrCur_def ctrMax_def)

section \<open>A level whose maximum is zero\<close>

text \<open>
  C10.  At a level whose counter stands at 0 with maximum 0 the loop condition
  fails at once: \<open>runLevel\<close> returns true with the state and the trace it was
  given, so no callback of this or a deeper level ran, nothing was called
  recursively and the counter is still 0.
\<close>

theorem zero_max_level:
  assumes "currentLevel < length (Order st)"
    and "Loops st (Order st ! currentLevel) = Some loop"
    and "ctrMax s (Order st ! currentLevel) = 0"
    and "ctrCur s (Order st ! currentLevel) = 0"
  shows "runLevel (Suc fuel) st currentLevel (s, tr) = Some (Inr (True, s, tr))"
  using assms by (auto simp add: runLevel.simps exitLoop_def setCur_same)

theorem zero_max_level_witness:
  "runLevel 1 oneLevel 0 (idle (\<lambda>t. 0), []) = Some (Inr (True, idle (\<lambda>t. 0), []))"
  using zero_max_level [of 0 oneLevel "plainLoop ''Trial''" "idle (\<lambda>t. 0)" 0 "[]"]
  by (simp add: oneLevel_def idle_def ctrCur_def ctrMax_def)

section \<open>The phase schedule\<close>

text \<open>
  C3.  Phases of durations 2 and 3, at the counter values 0 to 4.  The start and
  end callbacks fire where the claim says: phase 0 starts at 0 and ends at 1,
  phase 1 starts at 2 and ends at 4.  The tick callback of phase 1, though, fires
  at 0 and 1 as well, inside phase 0: the test \<^verbatim>\<open>ctr.Cur < amount\<close> has no
  lower bound.
\<close>

theorem phase_ticks_durations_2_3:
  "snd (phaseLogic 0 t loop23 (setCur t 0 s, [])) =
     [Fired 0 0 (PhaseStartK 0) ''p0.start'', Fired 0 0 (OnMillisecondEndK 0) ''p0.tick'',
      Fired 0 0 (OnMillisecondEndK 1) ''p1.tick'']
   \<and> snd (phaseLogic 0 t loop23 (setCur t 1 s, [])) =
     [Fired 0 1 (OnMillisecondEndK 0) ''p0.tick'', Fired 0 1 (PhaseEndK 0) ''p0.end'',
      Fired 0 1 (OnMillisecondEndK 1) ''p1.tick'']
   \<and> snd (phaseLogic 0 t loop23 (setCur t 2 s, [])) =
     [Fired 0 2 (PhaseStartK 1) ''p1.start'', Fired 0 2 (OnMillisecondEndK 1) ''p1.tick'']
   \<and> snd (phaseLogic 0 t loop23 (setCur t 3 s, [])) =
     [Fired 0 3 (OnMillisecondEndK 1) ''p1.tick'']
   \<and> snd (phaseLogic 0 t loop23 (setCur t 4 s, [])) =
     [Fired 0 4 (OnMillisecondEndK 1) ''p1.tick'', Fired 0 4 (PhaseEndK 1) ''p1.end'']"
  by (simp add: phaseLogic_def loop23_def phases23_def tally_def fire_pair)

lemma Incr_Cur: "Cur (Incr ct) = Cur ct + 1"
  by (simp add: Incr_def)

section \<open>The termination predicates\<close>

lemma isDoneLoop_evaluated:
  "isDoneLoop lvl time ps (s, tr) =
     ((\<exists>p\<in>set ps. snd p s),
      tr @ map (\<lambda>p. Fired lvl (ctrCur s time) IsDoneK (fst p)) (evaluated ps s))"
  by (induction ps arbitrary: tr) auto

lemma evaluated_all: "\<not> (\<exists>p\<in>set ps. snd p s) \<Longrightarrow> evaluated ps s = ps"
  by (induction ps) auto

text \<open>
  C5, as amended.  After an inner iteration that completed, and the \<open>Main\<close> and
  \<open>OnEnd\<close> callbacks, the predicates of \<open>IsDone\<close> are called in the order the
  \<^verbatim>\<open>range\<close> visits them, up to and including the first that returns true
  (\<open>evaluated\<close>).  If one returns true the counter is set to 0 and \<open>runLevel\<close>
  returns true, whatever the counter's maximum; otherwise all of them were
  called, the counter is incremented and the loop goes on.
\<close>

theorem predicates_after_iteration:
  assumes "currentLevel < length (Order st)"
    and "Loops st (Order st ! currentLevel) = Some loop"
    and "ctrCur s (Order st ! currentLevel) < ctrMax s (Order st ! currentLevel)
         \<or> ctrMax s (Order st ! currentLevel) < 0"
    and "\<not> internalStop s" and "\<not> (StopFlag s \<and> Order st ! currentLevel = StopLevel s)"
    and "runLevel fuel st (currentLevel + 1)
           (phaseLogic currentLevel (Order st ! currentLevel) loop
             (startWork currentLevel (Order st ! currentLevel) loop
               (stepCount (Order st ! currentLevel = StopLevel s) s, tr))) = Some (Inr (True, x5))"
    and "x7 = fireAll currentLevel (Order st ! currentLevel) OnEndK (OnEnd loop)
               (fireAll currentLevel (Order st ! currentLevel) MainK (Main loop) x5)"
  shows "runLevel (Suc fuel) st currentLevel (s, tr) =
     (if \<exists>p\<in>set (IsDone loop). snd p (fst x7)
      then Some (Inr (True, setCur (Order st ! currentLevel) 0 (fst x7),
             snd x7 @ map (\<lambda>p. Fired currentLevel (ctrCur (fst x7) (Order st ! currentLevel)) IsDoneK (fst p))
                        (evaluated (IsDone loop) (fst x7))))
      else runLevel fuel st currentLevel
             (setCur (Order st ! currentLevel) (ctrCur (fst x7) (Order st ! currentLevel) + 1) (fst x7),
              snd x7 @ map (\<lambda>p. Fired currentLevel (ctrCur (fst x7) (Order st ! currentLevel)) IsDoneK (fst p))
                         (IsDone loop)))"
proof -
  have d: "isDoneLoop currentLevel (Order st ! currentLevel) (IsDone loop) x7 =
     ((\<exists>p\<in>set (IsDone loop). snd p (fst x7)),
      snd x7 @ map (\<lambda>p. Fired currentLevel (ctrCur (fst x7) (Order st ! currentLevel)) IsDoneK (fst p))
                 (evaluated (IsDone loop) (fst x7)))"
    using isDoneLoop_evaluated [of currentLevel "Order st ! currentLevel" "IsDone loop" "fst x7" "snd x7"]
    by simp
  have m: "markStop (Order st ! currentLevel = StopLevel s) currentLevel s = s"
    using assms(5) by (auto simp add: markStop_def)
  show ?thesis
    using assms(1-4) assms(6) evaluated_all [of "IsDone loop" "fst x7"]
    by (simp add: runLevel.simps(2) [of fuel st currentLevel] m d assms(7) [symmetric] exitLoop_def Let_def)
qed

text \<open>
  C5 as stated fails: of two predicates that both hold, only the one visited
  first is called, in whichever order the map is visited.
\<close>

theorem not_every_predicate_is_evaluated:
  "trace_of (Run 4 (twoDone [doneA, doneB]) (idle (\<lambda>t. 10), [])) =
     [Fired 0 0 OnStartK ''Trial.start'', Fired 0 0 MainK ''Trial.main'',
      Fired 0 0 OnEndK ''Trial.end'', Fired 0 0 IsDoneK ''a'']
   \<and> trace_of (Run 4 (twoDone [doneB, doneA]) (idle (\<lambda>t. 10), [])) =
     [Fired 0 0 OnStartK ''Trial.start'', Fired 0 0 MainK ''Trial.main'',
      Fired 0 0 OnEndK ''Trial.end'', Fired 0 0 IsDoneK ''b'']"
  by (simp add: step_defs config_defs eval_nat_numeral)

text \<open>The theorem at one level with two predicates that both hold.\<close>

theorem predicates_after_iteration_witness:
  "runLevel 2 (twoDone [doneA, doneB]) 0 (idle (\<lambda>t. 10), []) =
     Some (Inr (True, setCur ''Trial'' 0 ((idle (\<lambda>t. 10))\<lparr>World := 3\<rparr>),
       [Fired 0 0 OnStartK ''Trial.start'', Fired 0 0 MainK ''Trial.main'',
        Fired 0 0 OnEndK ''Trial.end'', Fired 0 0 IsDoneK ''a'']))"
  using predicates_after_iteration [of 0 "twoDone [doneA, doneB]"
      "(plainLoop ''Trial'')\<lparr>IsDone := [doneA, doneB]\<rparr>" "idle (\<lambda>t. 10)" 1 "[]"
      "((idle (\<lambda>t. 10))\<lparr>World := 1\<rparr>, [Fired 0 0 OnStartK ''Trial.start''])"
      "((idle (\<lambda>t. 10))\<lparr>World := 3\<rparr>,
        [Fired 0 0 OnStartK ''Trial.start'', Fired 0 0 MainK ''Trial.main'',
         Fired 0 0 OnEndK ''Trial.end''])"]
  by (simp add: twoDone_def doneA_def doneB_def idle_def plainLoop_def tally_def
      runLevel.simps(2) [of 0] markStop_def stepCount_def startWork_def phaseLogic_def fire_pair
      ctrCur_def ctrMax_def numeral_2_eq_2)

section \<open>The trace is an accumulator\<close>

lemma hookEvents_append [simp]: "hookEvents (a @ b) = hookEvents a @ hookEvents b"
  by (simp add: hookEvents_def)

lemma fireAll_acc:
  "fireAll lvl time k hs (s, tr) =
     (fst (fireAll lvl time k hs (s, [])), tr @ snd (fireAll lvl time k hs (s, [])))"
proof (induction hs arbitrary: s tr)
  case Nil
  show ?case by simp
next
  case (Cons h hs)
  show ?case
    using Cons.IH [of "Func_fn h s" "tr @ [Fired lvl (ctrCur s time) k (Name h)]"]
          Cons.IH [of "Func_fn h s" "[Fired lvl (ctrCur s time) k (Name h)]"]
    by (simp add: fire_pair)
qed

lemma phaseLoop_acc:
  "phaseLoop lvl time a i ps (s, tr) =
     (fst (phaseLoop lvl time a i ps (s, [])), tr @ snd (phaseLoop lvl time a i ps (s, [])))"
proof (induction ps arbitrary: s tr a i)
  case Nil
  show ?case by simp
next
  case (Cons p ps)
  define y1 where "y1 = (if ctrCur s time = a then fireAll lvl time (PhaseStartK i) (PhaseStart p) (s, []) else (s, []))"
  define y2 where "y2 = (if ctrCur (fst y1) time < a + Duration p
      then fireAll lvl time (OnMillisecondEndK i) (OnMillisecondEnd p) (fst y1, []) else (fst y1, []))"
  define y3 where "y3 = (if ctrCur (fst y2) time = a + Duration p - 1
      then fireAll lvl time (PhaseEndK i) (PhaseEnd p) (fst y2, []) else (fst y2, []))"
  have step: "phaseLoop lvl time a i (p # ps) (s, u) =
      phaseLoop lvl time (a + Duration p) (Suc i) ps (fst y3, u @ snd y1 @ snd y2 @ snd y3)" for u
    unfolding y1_def y2_def y3_def
    by (simp add: Let_def fireAll_acc [of _ _ _ _ _ "u"] fireAll_acc [of _ _ _ _ _ "u @ _"])
  show ?case
    using Cons.IH [of "a + Duration p" "Suc i" "fst y3" "tr @ snd y1 @ snd y2 @ snd y3"]
          Cons.IH [of "a + Duration p" "Suc i" "fst y3" "snd y1 @ snd y2 @ snd y3"]
    by (simp only: step append_Nil) simp
qed

section \<open>The cases of runLevel\<close>

lemma startWork_acc:
  "startWork lvl time loop (s, tr) =
     (fst (startWork lvl time loop (s, [])), tr @ snd (startWork lvl time loop (s, [])))"
  using fireAll_acc [of lvl time OnStartK "OnStart loop" "s\<lparr>lastStoppedLevel := - 1\<rparr>" tr]
  by (simp add: startWork_def)

lemma phaseLogic_acc:
  "phaseLogic lvl time loop (s, tr) =
     (fst (phaseLogic lvl time loop (s, [])), tr @ snd (phaseLogic lvl time loop (s, [])))"
  using phaseLoop_acc [of lvl time 0 0 "Phases loop" s tr] by (simp add: phaseLogic_def)

lemma beforeInner_acc:
  "phaseLogic lvl time loop (startWork lvl time loop (stepCount (time = StopLevel s) s, tr)) =
     (fst (beforeInner lvl time loop s), tr @ snd (beforeInner lvl time loop s))"
proof -
  obtain s3 e3 where a: "startWork lvl time loop (stepCount (time = StopLevel s) s, []) = (s3, e3)"
    by (cases "startWork lvl time loop (stepCount (time = StopLevel s) s, [])")
  have b: "startWork lvl time loop (stepCount (time = StopLevel s) s, tr) = (s3, tr @ e3)"
    using startWork_acc [of lvl time loop "stepCount (time = StopLevel s) s" tr] a by simp
  show ?thesis
    using phaseLogic_acc [of lvl time loop s3 "tr @ e3"] phaseLogic_acc [of lvl time loop s3 e3]
    by (simp add: beforeInner_def a b)
qed

lemma afterInner_acc:
  "fireAll lvl time OnEndK (OnEnd loop) (fireAll lvl time MainK (Main loop) (s, tr)) =
     (fst (afterInner lvl time loop s), tr @ snd (afterInner lvl time loop s))"
proof -
  obtain s6 e6 where a: "fireAll lvl time MainK (Main loop) (s, []) = (s6, e6)"
    by (cases "fireAll lvl time MainK (Main loop) (s, [])")
  have b: "fireAll lvl time MainK (Main loop) (s, tr) = (s6, tr @ e6)"
    using fireAll_acc [of lvl time MainK "Main loop" s tr] a by simp
  show ?thesis
    using fireAll_acc [of lvl time OnEndK "OnEnd loop" s6 "tr @ e6"]
      fireAll_acc [of lvl time OnEndK "OnEnd loop" s6 e6]
    by (simp add: afterInner_def a b)
qed

lemma runLevel_bottom:
  "length (Order st) \<le> d \<Longrightarrow> runLevel (Suc fuel) st d x = Some (Inr (True, x))"
  by (simp add: runLevel.simps)

lemma runLevel_nil:
  "d < length (Order st) \<Longrightarrow> Loops st (Order st ! d) = None \<Longrightarrow>
   runLevel (Suc fuel) st d x = Some (Inl NilPointer)"
  by (simp add: runLevel.simps)

lemma runLevel_exhausted:
  assumes "d < length (Order st)" and "Loops st (Order st ! d) = Some loop"
    and "\<not> (ctrCur s (Order st ! d) < ctrMax s (Order st ! d) \<or> ctrMax s (Order st ! d) < 0)"
  shows "runLevel (Suc fuel) st d (s, tr) =
     Some (Inr (True, (if internalStop s then s else setCur (Order st ! d) 0 s), tr))"
  using assms by (auto simp add: runLevel.simps exitLoop_def)

lemma runLevel_halt:
  assumes "d < length (Order st)" and "Loops st (Order st ! d) = Some loop"
    and "ctrCur s (Order st ! d) < ctrMax s (Order st ! d) \<or> ctrMax s (Order st ! d) < 0"
    and "internalStop s \<or> (StopFlag s \<and> Order st ! d = StopLevel s)"
  shows "runLevel (Suc fuel) st d (s, tr) =
     Some (Inr (False,
       s\<lparr>StopFlag := False, internalStop := True,
         lastStoppedLevel := (if StopFlag s \<and> Order st ! d = StopLevel s
                              then int d else lastStoppedLevel s)\<rparr>, tr))"
  using assms by (auto simp add: runLevel.simps markStop_def)

lemma runLevel_pass:
  assumes "d < length (Order st)" and "Loops st (Order st ! d) = Some loop"
    and "ctrCur s (Order st ! d) < ctrMax s (Order st ! d) \<or> ctrMax s (Order st ! d) < 0"
    and "\<not> internalStop s" and "\<not> (StopFlag s \<and> Order st ! d = StopLevel s)"
  shows "runLevel (Suc fuel) st d (s, tr) =
     (case runLevel fuel st (Suc d)
             (fst (beforeInner d (Order st ! d) loop s), tr @ snd (beforeInner d (Order st ! d) loop s)) of
        None \<Rightarrow> None
      | Some (Inl e) \<Rightarrow> Some (Inl e)
      | Some (Inr (rc, s5, t5)) \<Rightarrow>
          if rc then
            if \<exists>p\<in>set (IsDone loop). snd p (fst (afterInner d (Order st ! d) loop s5))
            then Some (Inr (True, setCur (Order st ! d) 0 (fst (afterInner d (Order st ! d) loop s5)),
                   t5 @ snd (afterInner d (Order st ! d) loop s5)
                      @ doneEvents d (Order st ! d)
                          (evaluated (IsDone loop) (fst (afterInner d (Order st ! d) loop s5)))
                          (fst (afterInner d (Order st ! d) loop s5))))
            else runLevel fuel st d
                   (setCur (Order st ! d)
                      (ctrCur (fst (afterInner d (Order st ! d) loop s5)) (Order st ! d) + 1)
                      (fst (afterInner d (Order st ! d) loop s5)),
                    t5 @ snd (afterInner d (Order st ! d) loop s5)
                       @ doneEvents d (Order st ! d) (IsDone loop)
                           (fst (afterInner d (Order st ! d) loop s5)))
          else runLevel fuel st d (s5, t5))"
proof -
  have m: "markStop (Order st ! d = StopLevel s) d s = s"
    using assms(5) by (auto simp add: markStop_def)
  show ?thesis
    using assms(1-4)
    by (auto simp add: runLevel.simps(2) [of fuel st d] m Let_def beforeInner_acc afterInner_acc
        isDoneLoop_evaluated exitLoop_def doneEvents_def evaluated_all
        split: option.splits sum.splits)
qed

section \<open>Determinism\<close>



lemma hookEvents_doneEvents [simp]: "hookEvents (doneEvents d t ps s) = []"
  by (simp add: hookEvents_def doneEvents_def)

lemma observable_None [simp]: "observable None = None"
  by (simp add: observable_def)

lemma observable_Inl [simp]: "observable (Some (Inl e)) = Some (Inl e)"
  by (simp add: observable_def)

lemma observable_Inr [simp]:
  "observable (Some (Inr (b, s, tr))) = Some (Inr (b, s, hookEvents tr))"
  by (simp add: observable_def)









section \<open>Fuel, and runs that return\<close>

lemma runLevel_Suc_mono:
  "runLevel f st d x = Some r \<Longrightarrow> runLevel (Suc f) st d x = Some r"
proof (induction f arbitrary: d x r)
  case 0
  then show ?case by (simp add: runLevel.simps)
next
  case (Suc f)
  obtain s tr where x: "x = (s, tr)" by (cases x)
  let ?t = "Order st ! d"
  show ?case
  proof (cases "d < length (Order st)")
    case False
    then show ?thesis using Suc.prems by (simp add: runLevel_bottom)
  next
    case d: True
    show ?thesis
    proof (cases "Loops st ?t")
      case None
      then show ?thesis using Suc.prems d by (simp add: runLevel_nil)
    next
      case (Some loop)
      show ?thesis
      proof (cases "ctrCur s ?t < ctrMax s ?t \<or> ctrMax s ?t < 0")
        case False
        then show ?thesis
          using Suc.prems runLevel_exhausted [OF d Some, of s] by (simp add: x)
      next
        case cond: True
        show ?thesis
        proof (cases "internalStop s \<or> (StopFlag s \<and> ?t = StopLevel s)")
          case True
          then show ?thesis
            using Suc.prems runLevel_halt [OF d Some cond] by (simp add: x)
        next
          case False
          then have ns: "\<not> internalStop s" and nf: "\<not> (StopFlag s \<and> ?t = StopLevel s)" by auto
          note L = runLevel_pass [OF d Some cond ns nf, of f tr]
          note R = runLevel_pass [OF d Some cond ns nf, of "Suc f" tr]
          let ?x = "beforeInner d ?t loop s"
          show ?thesis
          proof (cases "runLevel f st (Suc d) (fst ?x, tr @ snd ?x)")
            case None
            then show ?thesis using Suc.prems L by (auto simp add: x)
          next
            case inner: (Some q)
            have inner': "runLevel (Suc f) st (Suc d) (fst ?x, tr @ snd ?x) = Some q"
              using inner by (rule Suc.IH)
            show ?thesis
            proof (cases q)
              case (Inl e)
              then show ?thesis using Suc.prems L R inner inner' by (auto simp add: x)
            next
              case (Inr y)
              obtain rc s5 t5 where y: "y = (rc, s5, t5)" by (cases y)
              let ?y = "afterInner d ?t loop s5"
              show ?thesis
              proof (cases rc)
                case False
                then have "runLevel f st d (s5, t5) = Some r"
                  using Suc.prems L inner Inr y by (auto simp add: x)
                then have "runLevel (Suc f) st d (s5, t5) = Some r" by (rule Suc.IH)
                then show ?thesis using R inner' Inr y False by (auto simp add: x)
              next
                case True
                show ?thesis
                proof (cases "\<exists>p\<in>set (IsDone loop). snd p (fst ?y)")
                  case fin: True
                  then show ?thesis using Suc.prems L R inner inner' Inr y True by (auto simp add: x)
                next
                  case nd: False
                  then have "runLevel f st d
                      (setCur ?t (ctrCur (fst ?y) ?t + 1) (fst ?y),
                       t5 @ snd ?y @ doneEvents d ?t (IsDone loop) (fst ?y)) = Some r"
                    using Suc.prems L inner Inr y True by (auto simp add: x)
                  then have "runLevel (Suc f) st d
                      (setCur ?t (ctrCur (fst ?y) ?t + 1) (fst ?y),
                       t5 @ snd ?y @ doneEvents d ?t (IsDone loop) (fst ?y)) = Some r"
                    by (rule Suc.IH)
                  then show ?thesis using R inner' Inr y True nd by (auto simp add: x)
                qed
              qed
            qed
          qed
        qed
      qed
    qed
  qed
qed

lemma runLevel_mono:
  "runLevel f st d x = Some r \<Longrightarrow> f \<le> f' \<Longrightarrow> runLevel f' st d x = Some r"
proof (induction f' arbitrary: f)
  case 0
  then show ?case by simp
next
  case (Suc f')
  show ?case
  proof (cases "f = Suc f'")
    case True
    then show ?thesis using Suc.prems by simp
  next
    case False
    then have "f \<le> f'" using Suc.prems by simp
    then have "runLevel f' st d x = Some r" using Suc.IH Suc.prems(1) by blast
    then show ?thesis by (rule runLevel_Suc_mono)
  qed
qed

lemma runsTo_bottom: "length (Order st) \<le> d \<Longrightarrow> runsTo st d s True s []"
  unfolding runsTo_def using runLevel_bottom [of st d 0] by (metis append_Nil2)

lemma runsTo_exhausted:
  assumes "d < length (Order st)" and "Loops st (Order st ! d) = Some loop"
    and "\<not> (ctrCur s (Order st ! d) < ctrMax s (Order st ! d) \<or> ctrMax s (Order st ! d) < 0)"
    and "\<not> internalStop s"
  shows "runsTo st d s True (setCur (Order st ! d) 0 s) []"
  unfolding runsTo_def
proof
  fix tr
  show "\<exists>fuel. runLevel fuel st d (s, tr) = Some (Inr (True, setCur (Order st ! d) 0 s, tr @ []))"
    using runLevel_exhausted [OF assms(1-3), of 0 tr] assms(4) by (intro exI [of _ "Suc 0"]) simp
qed


lemma World_World [simp]: "s\<lparr>World := w, World := w'\<rparr> = s\<lparr>World := w'\<rparr>"
  by simp

section \<open>Callbacks that only touch the world\<close>

lemma fireAll_framed:
  "list_all framed hs \<Longrightarrow>
   \<exists>w. fireAll lvl time k hs (s, tr) = (s\<lparr>World := w\<rparr>, tr @ hookNames lvl (ctrCur s time) k hs)"
proof (induction hs arbitrary: s tr)
  case Nil
  have "s = s\<lparr>World := World s\<rparr>" by simp
  then show ?case by (auto simp add: hookNames_def intro: exI [of _ "World s"])
next
  case (Cons h hs)
  then have "framed h" by simp
  then obtain w where w: "Func_fn h s = s\<lparr>World := w\<rparr>" unfolding framed_def by blast
  from Cons.prems have "list_all framed hs" by simp
  with Cons.IH obtain w' where
    "fireAll lvl time k hs (s\<lparr>World := w\<rparr>, tr @ [Fired lvl (ctrCur s time) k (Name h)]) =
       (s\<lparr>World := w, World := w'\<rparr>,
        (tr @ [Fired lvl (ctrCur s time) k (Name h)]) @ hookNames lvl (ctrCur (s\<lparr>World := w\<rparr>) time) k hs)"
    by blast
  then show ?case by (auto simp add: fire_pair w hookNames_def)
qed

lemma fireIf_framed:
  "list_all framed hs \<Longrightarrow>
   \<exists>w. (if b then fireAll lvl time k hs (s, tr) else (s, tr)) =
        (s\<lparr>World := w\<rparr>, tr @ (if b then hookNames lvl (ctrCur s time) k hs else []))"
proof (cases b)
  case True
  assume "list_all framed hs"
  then show ?thesis using fireAll_framed [of hs lvl time k s tr] True by simp
next
  case False
  have "s = s\<lparr>World := World s\<rparr>" by simp
  then show ?thesis using False by (auto intro: exI [of _ "World s"])
qed

lemma fireIf_framed':
  assumes "list_all framed hs"
  shows "\<exists>w. (if b then fireAll lvl time k hs (s\<lparr>World := v\<rparr>, tr) else (s\<lparr>World := v\<rparr>, tr)) =
        (s\<lparr>World := w\<rparr>, tr @ (if b then hookNames lvl (ctrCur s time) k hs else []))"
proof (cases b)
  case True
  obtain w where "fireAll lvl time k hs (s\<lparr>World := v\<rparr>, tr) =
      (s\<lparr>World := v, World := w\<rparr>, tr @ hookNames lvl (ctrCur (s\<lparr>World := v\<rparr>) time) k hs)"
    using fireAll_framed [OF assms] by blast
  then show ?thesis using True by (intro exI [of _ w]) simp
next
  case False
  then show ?thesis by (intro exI [of _ v]) simp
qed

lemma phaseLoop_framed:
  "list_all framedPhase ps \<Longrightarrow>
   \<exists>w. phaseLoop lvl time a i ps (s, tr) = (s\<lparr>World := w\<rparr>, tr @ phaseEvents lvl (ctrCur s time) a i ps)"
proof (induction ps arbitrary: s tr a i)
  case Nil
  have "s = s\<lparr>World := World s\<rparr>" by simp
  then show ?case by (auto intro: exI [of _ "World s"])
next
  case (Cons p ps)
  let ?c = "ctrCur s time"
  have "framedPhase p" and rest: "list_all framedPhase ps"
    using Cons.prems by simp_all
  then have fp: "list_all framed (PhaseStart p)" "list_all framed (OnMillisecondEnd p)"
    "list_all framed (PhaseEnd p)"
    unfolding framedPhase_def by simp_all
  define x1 where "x1 = (if ctrCur (fst (s, tr)) time = a + Duration p - Duration p
       then fireAll lvl time (PhaseStartK i) (PhaseStart p) (s, tr) else (s, tr))"
  define x2 where "x2 = (if ctrCur (fst x1) time < a + Duration p
       then fireAll lvl time (OnMillisecondEndK i) (OnMillisecondEnd p) x1 else x1)"
  define x3 where "x3 = (if ctrCur (fst x2) time = a + Duration p - 1
       then fireAll lvl time (PhaseEndK i) (PhaseEnd p) x2 else x2)"
  have step: "phaseLoop lvl time a i (p # ps) (s, tr) = phaseLoop lvl time (a + Duration p) (Suc i) ps x3"
    by (simp only: phaseLoop.simps Let_def x1_def x2_def x3_def)
  let ?e1 = "if ?c = a then hookNames lvl ?c (PhaseStartK i) (PhaseStart p) else []"
  let ?e2 = "if ?c < a + Duration p then hookNames lvl ?c (OnMillisecondEndK i) (OnMillisecondEnd p) else []"
  let ?e3 = "if ?c = a + Duration p - 1 then hookNames lvl ?c (PhaseEndK i) (PhaseEnd p) else []"
  have "\<exists>w1. x1 = (s\<lparr>World := w1\<rparr>, tr @ ?e1)"
    unfolding x1_def using fireIf_framed [OF fp(1), of "?c = a" lvl time "PhaseStartK i" s tr] by simp
  then obtain w1 where e1: "x1 = (s\<lparr>World := w1\<rparr>, tr @ ?e1)" ..
  have "\<exists>w2. x2 = (s\<lparr>World := w2\<rparr>, (tr @ ?e1) @ ?e2)"
    unfolding x2_def e1
    using fireIf_framed' [OF fp(2), where b = "?c < a + Duration p" and lvl = lvl and time = time
        and k = "OnMillisecondEndK i" and s = s and v = w1 and tr = "tr @ ?e1"]
    by (simp only: fst_conv ctrCur_World)
  then obtain w2 where e2: "x2 = (s\<lparr>World := w2\<rparr>, (tr @ ?e1) @ ?e2)" ..
  have "\<exists>w3. x3 = (s\<lparr>World := w3\<rparr>, ((tr @ ?e1) @ ?e2) @ ?e3)"
    unfolding x3_def e2
    using fireIf_framed' [OF fp(3), where b = "?c = a + Duration p - 1" and lvl = lvl and time = time
        and k = "PhaseEndK i" and s = s and v = w2 and tr = "(tr @ ?e1) @ ?e2"]
    by (simp only: fst_conv ctrCur_World)
  then obtain w3 where e3: "x3 = (s\<lparr>World := w3\<rparr>, ((tr @ ?e1) @ ?e2) @ ?e3)" ..
  obtain w4 where e4: "phaseLoop lvl time (a + Duration p) (Suc i) ps (s\<lparr>World := w3\<rparr>, ((tr @ ?e1) @ ?e2) @ ?e3) =
      (s\<lparr>World := w3, World := w4\<rparr>,
       (((tr @ ?e1) @ ?e2) @ ?e3) @ phaseEvents lvl (ctrCur (s\<lparr>World := w3\<rparr>) time) (a + Duration p) (Suc i) ps)"
    using Cons.IH [OF rest] by blast
  have "phaseLoop lvl time a i (p # ps) (s, tr) =
      (s\<lparr>World := w3, World := w4\<rparr>,
       (((tr @ ?e1) @ ?e2) @ ?e3) @ phaseEvents lvl (ctrCur (s\<lparr>World := w3\<rparr>) time) (a + Duration p) (Suc i) ps)"
    by (simp only: step e3 e4)
  then show ?case
    by (intro exI [of _ w4]) (simp del: phaseLoop.simps)
qed

lemma runsTo_iterate:
  assumes "d < length (Order st)" and "Loops st (Order st ! d) = Some loop"
    and "ctrCur s (Order st ! d) < ctrMax s (Order st ! d) \<or> ctrMax s (Order st ! d) < 0"
    and "\<not> internalStop s" and "\<not> (StopFlag s \<and> Order st ! d = StopLevel s)"
    and before: "beforeInner d (Order st ! d) loop s = (s3, e3)"
    and inner: "runsTo st (Suc d) s3 True s5 e5"
    and after: "afterInner d (Order st ! d) loop s5 = (s7, e7)"
    and nd: "\<not> (\<exists>p\<in>set (IsDone loop). snd p s7)"
    and rest: "runsTo st d (setCur (Order st ! d) (ctrCur s7 (Order st ! d) + 1) s7) b s' e'"
  shows "runsTo st d s b s' (e3 @ e5 @ e7 @ doneEvents d (Order st ! d) (IsDone loop) s7 @ e')"
  unfolding runsTo_def
proof
  fix tr
  let ?t = "Order st ! d"
  obtain f1 where f1: "runLevel f1 st (Suc d) (s3, tr @ e3) = Some (Inr (True, s5, (tr @ e3) @ e5))"
    using inner unfolding runsTo_def by blast
  obtain f2 where f2: "runLevel f2 st d (setCur ?t (ctrCur s7 ?t + 1) s7,
        (tr @ e3) @ e5 @ e7 @ doneEvents d ?t (IsDone loop) s7) =
      Some (Inr (b, s', ((tr @ e3) @ e5 @ e7 @ doneEvents d ?t (IsDone loop) s7) @ e'))"
    using rest unfolding runsTo_def by blast
  let ?f = "max f1 f2"
  have g1: "runLevel ?f st (Suc d) (s3, tr @ e3) = Some (Inr (True, s5, (tr @ e3) @ e5))"
    using f1 by (rule runLevel_mono) simp
  have g2: "runLevel ?f st d (setCur ?t (ctrCur s7 ?t + 1) s7,
        (tr @ e3) @ e5 @ e7 @ doneEvents d ?t (IsDone loop) s7) =
      Some (Inr (b, s', ((tr @ e3) @ e5 @ e7 @ doneEvents d ?t (IsDone loop) s7) @ e'))"
    using f2 by (rule runLevel_mono) simp
  have "runLevel (Suc ?f) st d (s, tr) =
      Some (Inr (b, s', tr @ e3 @ e5 @ e7 @ doneEvents d ?t (IsDone loop) s7 @ e'))"
    using runLevel_pass [OF assms(1-5), of ?f tr] g1 g2 nd by (simp add: before after)
  then show "\<exists>fuel. runLevel fuel st d (s, tr) =
      Some (Inr (b, s', tr @ e3 @ e5 @ e7 @ doneEvents d ?t (IsDone loop) s7 @ e'))" ..
qed

lemma runsTo_finish:
  assumes "d < length (Order st)" and "Loops st (Order st ! d) = Some loop"
    and "ctrCur s (Order st ! d) < ctrMax s (Order st ! d) \<or> ctrMax s (Order st ! d) < 0"
    and "\<not> internalStop s" and "\<not> (StopFlag s \<and> Order st ! d = StopLevel s)"
    and before: "beforeInner d (Order st ! d) loop s = (s3, e3)"
    and inner: "runsTo st (Suc d) s3 True s5 e5"
    and after: "afterInner d (Order st ! d) loop s5 = (s7, e7)"
    and fin: "\<exists>p\<in>set (IsDone loop). snd p s7"
  shows "runsTo st d s True (setCur (Order st ! d) 0 s7)
           (e3 @ e5 @ e7 @ doneEvents d (Order st ! d) (evaluated (IsDone loop) s7) s7)"
  unfolding runsTo_def
proof
  fix tr
  let ?t = "Order st ! d"
  obtain f1 where f1: "runLevel f1 st (Suc d) (s3, tr @ e3) = Some (Inr (True, s5, (tr @ e3) @ e5))"
    using inner unfolding runsTo_def by blast
  have "runLevel (Suc f1) st d (s, tr) =
      Some (Inr (True, setCur ?t 0 s7, tr @ e3 @ e5 @ e7 @ doneEvents d ?t (evaluated (IsDone loop) s7) s7))"
    using runLevel_pass [OF assms(1-5), of f1 tr] f1 fin by (simp add: before after)
  then show "\<exists>fuel. runLevel fuel st d (s, tr) =
      Some (Inr (True, setCur ?t 0 s7, tr @ e3 @ e5 @ e7 @ doneEvents d ?t (evaluated (IsDone loop) s7) s7))" ..
qed


lemma beforeInner_framed:
  assumes "framedLoop loop" and "lastStoppedLevel (stepCount (t = StopLevel s) s) \<le> int d"
  shows "\<exists>w. beforeInner d t loop s =
     ((stepCount (t = StopLevel s) s)\<lparr>lastStoppedLevel := - 1, World := w\<rparr>,
      hookNames d (ctrCur s t) OnStartK (OnStart loop) @ phaseEvents d (ctrCur s t) 0 0 (Phases loop))"
proof -
  let ?s2 = "stepCount (t = StopLevel s) s"
  have c2: "ctrCur ?s2 t = ctrCur s t" by (simp add: stepCount_def ctrCur_def Let_def)
  have fs: "list_all framed (OnStart loop)" and fp: "list_all framedPhase (Phases loop)"
    using assms(1) unfolding framedLoop_def by simp_all
  obtain w1 where w1: "fireAll d t OnStartK (OnStart loop) (?s2\<lparr>lastStoppedLevel := - 1\<rparr>, []) =
      (?s2\<lparr>lastStoppedLevel := - 1, World := w1\<rparr>,
       [] @ hookNames d (ctrCur (?s2\<lparr>lastStoppedLevel := - 1\<rparr>) t) OnStartK (OnStart loop))"
    using fireAll_framed [OF fs] by blast
  have c3: "ctrCur (?s2\<lparr>lastStoppedLevel := - 1\<rparr>) t = ctrCur s t"
    using c2 by (simp add: ctrCur_def)
  obtain w2 where w2: "phaseLoop d t 0 0 (Phases loop)
        (?s2\<lparr>lastStoppedLevel := - 1, World := w1\<rparr>, hookNames d (ctrCur s t) OnStartK (OnStart loop)) =
      (?s2\<lparr>lastStoppedLevel := - 1, World := w1, World := w2\<rparr>,
       hookNames d (ctrCur s t) OnStartK (OnStart loop)
       @ phaseEvents d (ctrCur (?s2\<lparr>lastStoppedLevel := - 1, World := w1\<rparr>) t) 0 0 (Phases loop))"
    using phaseLoop_framed [OF fp] by blast
  have c4: "ctrCur (?s2\<lparr>lastStoppedLevel := - 1, World := w1\<rparr>) t = ctrCur s t"
    using c2 by (simp add: ctrCur_def)
  have "beforeInner d t loop s =
     (?s2\<lparr>lastStoppedLevel := - 1, World := w2\<rparr>,
      hookNames d (ctrCur s t) OnStartK (OnStart loop) @ phaseEvents d (ctrCur s t) 0 0 (Phases loop))"
    using assms(2) w1 w2 by (simp add: beforeInner_def startWork_def phaseLogic_def c3 c4)
  then show ?thesis ..
qed

lemma afterInner_framed:
  assumes "framedLoop loop"
  shows "\<exists>w. afterInner d t loop s =
     (s\<lparr>World := w\<rparr>,
      hookNames d (ctrCur s t) MainK (Main loop) @ hookNames d (ctrCur s t) OnEndK (OnEnd loop))"
proof -
  have fm: "list_all framed (Main loop)" and fe: "list_all framed (OnEnd loop)"
    using assms unfolding framedLoop_def by simp_all
  obtain w1 where w1: "fireAll d t MainK (Main loop) (s, []) =
      (s\<lparr>World := w1\<rparr>, [] @ hookNames d (ctrCur s t) MainK (Main loop))"
    using fireAll_framed [OF fm] by blast
  obtain w2 where w2: "fireAll d t OnEndK (OnEnd loop) (s\<lparr>World := w1\<rparr>, hookNames d (ctrCur s t) MainK (Main loop)) =
      (s\<lparr>World := w1, World := w2\<rparr>,
       hookNames d (ctrCur s t) MainK (Main loop) @ hookNames d (ctrCur (s\<lparr>World := w1\<rparr>) t) OnEndK (OnEnd loop))"
    using fireAll_framed [OF fe] by blast
  have "afterInner d t loop s =
     (s\<lparr>World := w2\<rparr>,
      hookNames d (ctrCur s t) MainK (Main loop) @ hookNames d (ctrCur s t) OnEndK (OnEnd loop))"
    using w1 w2 by (simp add: afterInner_def)
  then show ?thesis ..
qed

lemma settled_World [simp]: "settled st d (s\<lparr>World := w\<rparr>) = settled st d s"
  by (simp add: settled_def)

lemma lastStoppedLevel_same: "lastStoppedLevel s = v \<Longrightarrow> s\<lparr>lastStoppedLevel := v\<rparr> = s"
  by (cases s) simp

lemma ctrCur_stepCount [simp]: "ctrCur (stepCount b s) t = ctrCur s t"
  by (simp add: stepCount_def ctrCur_def Let_def)

lemma ctrMax_stepCount [simp]: "ctrMax (stepCount b s) t = ctrMax s t"
  by (simp add: stepCount_def ctrMax_def Let_def)

lemma internalStop_stepCount [simp]: "internalStop (stepCount b s) = internalStop s"
  by (simp add: stepCount_def Let_def)

lemma setCur_World: "setCur t v (s\<lparr>World := w\<rparr>) = (setCur t v s)\<lparr>World := w\<rparr>"
  by (simp add: setCur_def)

lemma tame_iteration:
  assumes d: "d < length (Order st)" and loop: "Loops st (Order st ! d) = Some loop"
    and fr: "framedLoop loop"
    and sub: "\<And>s'. settled st (Suc d) s' \<Longrightarrow> ctrMax s' = ctrMax s \<Longrightarrow>
                \<exists>w. runsTo st (Suc d) s' True (s'\<lparr>World := w\<rparr>) sub"
    and cond: "ctrCur s (Order st ! d) < ctrMax s (Order st ! d) \<or> ctrMax s (Order st ! d) < 0"
    and nf: "\<not> (StopFlag s \<and> Order st ! d = StopLevel s)"
    and s2: "settled st (Suc d) (stepCount (Order st ! d = StopLevel s) s)"
  shows "\<exists>w. (if \<exists>p\<in>set (IsDone loop). snd p ((stepCount (Order st ! d = StopLevel s) s)\<lparr>World := w\<rparr>)
        then runsTo st d s True
               (setCur (Order st ! d) 0 ((stepCount (Order st ! d = StopLevel s) s)\<lparr>World := w\<rparr>))
               (iterEvents d loop sub (ctrCur s (Order st ! d))
                @ doneEvents d (Order st ! d)
                    (evaluated (IsDone loop) ((stepCount (Order st ! d = StopLevel s) s)\<lparr>World := w\<rparr>))
                    s)
        else \<forall>b s' e'.
               runsTo st d (setCur (Order st ! d) (ctrCur s (Order st ! d) + 1)
                              ((stepCount (Order st ! d = StopLevel s) s)\<lparr>World := w\<rparr>)) b s' e' \<longrightarrow>
               runsTo st d s b s'
                 (iterEvents d loop sub (ctrCur s (Order st ! d))
                  @ doneEvents d (Order st ! d) (IsDone loop) s @ e'))"
proof -
  let ?t = "Order st ! d"
  let ?s2 = "stepCount (?t = StopLevel s) s"
  let ?c = "ctrCur s ?t"
  have ns: "\<not> internalStop s" using s2 by (simp add: settled_def)
  have l2: "lastStoppedLevel ?s2 = - 1" using s2 by (simp add: settled_def)
  then have l2': "lastStoppedLevel ?s2 \<le> int d" by simp
  obtain w1 where before: "beforeInner d ?t loop s =
      (?s2\<lparr>World := w1\<rparr>, hookNames d ?c OnStartK (OnStart loop) @ phaseEvents d ?c 0 0 (Phases loop))"
    using beforeInner_framed [OF fr l2'] lastStoppedLevel_same [OF l2] by auto
  have "settled st (Suc d) (?s2\<lparr>World := w1\<rparr>)" using s2 by simp
  moreover have "ctrMax (?s2\<lparr>World := w1\<rparr>) = ctrMax s" by (rule ext) simp
  ultimately obtain w2 where inner: "runsTo st (Suc d) (?s2\<lparr>World := w1\<rparr>) True (?s2\<lparr>World := w1, World := w2\<rparr>) sub"
    using sub by blast
  obtain w3 where after: "afterInner d ?t loop (?s2\<lparr>World := w1, World := w2\<rparr>) =
      (?s2\<lparr>World := w1, World := w2, World := w3\<rparr>,
       hookNames d (ctrCur (?s2\<lparr>World := w1, World := w2\<rparr>) ?t) MainK (Main loop)
       @ hookNames d (ctrCur (?s2\<lparr>World := w1, World := w2\<rparr>) ?t) OnEndK (OnEnd loop))"
    using afterInner_framed [OF fr] by blast
  let ?s7 = "?s2\<lparr>World := w3\<rparr>"
  have after': "afterInner d ?t loop (?s2\<lparr>World := w1, World := w2\<rparr>) =
      (?s7, hookNames d ?c MainK (Main loop) @ hookNames d ?c OnEndK (OnEnd loop))"
    using after by simp
  have de: "doneEvents d ?t ps ?s7 = doneEvents d ?t ps s" for ps
    by (simp add: doneEvents_def)
  have c7: "ctrCur ?s7 ?t = ?c" by simp
  show ?thesis
  proof (cases "\<exists>p\<in>set (IsDone loop). snd p ?s7")
    case True
    have "runsTo st d s True (setCur ?t 0 ?s7)
        ((hookNames d ?c OnStartK (OnStart loop) @ phaseEvents d ?c 0 0 (Phases loop)) @ sub
         @ (hookNames d ?c MainK (Main loop) @ hookNames d ?c OnEndK (OnEnd loop))
         @ doneEvents d ?t (evaluated (IsDone loop) ?s7) ?s7)"
      by (rule runsTo_finish [OF d loop cond ns nf before inner after' True])
    then show ?thesis using True by (intro exI [of _ w3]) (simp add: iterEvents_def de)
  next
    case False
    have "runsTo st d s b s'
        ((hookNames d ?c OnStartK (OnStart loop) @ phaseEvents d ?c 0 0 (Phases loop)) @ sub
         @ (hookNames d ?c MainK (Main loop) @ hookNames d ?c OnEndK (OnEnd loop))
         @ doneEvents d ?t (IsDone loop) ?s7 @ e')"
      if "runsTo st d (setCur ?t (?c + 1) ?s7) b s' e'" for b s' e'
      using runsTo_iterate [OF d loop cond ns nf before inner after' False] that c7 by simp
    then show ?thesis using False by (intro exI [of _ w3]) (simp add: iterEvents_def de)
  qed
qed

lemma doneEvents_doneNames: "doneEvents d t ps s = doneNames d (ctrCur s t) ps"
  by (simp add: doneEvents_def doneNames_def)

lemma stepCount_idle: "\<not> (StopNext s \<and> b) \<Longrightarrow> stepCount b s = s"
  by (auto simp add: stepCount_def)

lemma loopEvents_step:
  "0 \<le> c \<Longrightarrow> c < m \<Longrightarrow>
   loopEvents d loop sub c m =
     iterEvents d loop sub c @ doneNames d c (IsDone loop) @ loopEvents d loop sub (c + 1) m"
proof -
  assume c: "0 \<le> c" "c < m"
  then have "nat c < nat m" by simp
  then have "[nat c..<nat m] = nat c # [Suc (nat c)..<nat m]" by (rule upt_conv_Cons)
  moreover have "Suc (nat c) = nat (c + 1)" using c by simp
  ultimately show ?thesis using c by (simp add: loopEvents_def)
qed

lemma loopEvents_empty: "m \<le> c \<Longrightarrow> loopEvents d loop sub c m = []"
  by (simp add: loopEvents_def)

lemma settled_setCur:
  assumes "distinct (Order st)" and "d < length (Order st)"
  shows "settled st (Suc d) (setCur (Order st ! d) v s) = settled st (Suc d) s"
proof -
  have "Order st ! k \<noteq> Order st ! d" if "Suc d \<le> k" "k < length (Order st)" for k
    using that assms by (simp add: nth_eq_iff_index_eq)
  then show ?thesis
    by (auto simp add: settled_def setCur_def ctrCur_def ctrMax_def)
qed

lemma tame_loop:
  assumes d: "d < length (Order st)" and loop: "Loops st (Order st ! d) = Some loop"
    and fr: "framedLoop loop" and quiet: "\<forall>p\<in>set (IsDone loop). \<forall>s. \<not> snd p s"
    and dist: "distinct (Order st)"
    and sub: "\<And>s'. settled st (Suc d) s' \<Longrightarrow> ctrMax s' = mx \<Longrightarrow>
                \<exists>w. runsTo st (Suc d) s' True (s'\<lparr>World := w\<rparr>) sub"
  shows "settled st (Suc d) s \<Longrightarrow> ctrMax s = mx \<Longrightarrow>
    (StopFlag s \<or> StopNext s \<longrightarrow> StopLevel s \<noteq> Order st ! d) \<Longrightarrow>
    0 \<le> ctrCur s (Order st ! d) \<Longrightarrow> ctrCur s (Order st ! d) \<le> mx (Order st ! d) \<Longrightarrow>
    n = nat (mx (Order st ! d) - ctrCur s (Order st ! d)) \<Longrightarrow>
    \<exists>w. runsTo st d s True ((setCur (Order st ! d) 0 s)\<lparr>World := w\<rparr>)
           (loopEvents d loop sub (ctrCur s (Order st ! d)) (mx (Order st ! d)))"
proof (induction n arbitrary: s)
  case 0
  let ?t = "Order st ! d"
  have eq: "ctrCur s ?t = mx ?t" using 0 by simp
  have "\<not> (ctrCur s ?t < ctrMax s ?t \<or> ctrMax s ?t < 0)" using 0 eq by auto
  moreover have "\<not> internalStop s" using 0 by (simp add: settled_def)
  ultimately have "runsTo st d s True (setCur ?t 0 s) []"
    using runsTo_exhausted [OF d loop] by blast
  moreover have "(setCur ?t 0 s)\<lparr>World := World s\<rparr> = setCur ?t 0 s" by (simp add: setCur_def)
  ultimately show ?case by (intro exI [of _ "World s"]) (simp add: loopEvents_empty eq)
next
  case (Suc n)
  let ?t = "Order st ! d"
  let ?c = "ctrCur s ?t"
  have lt: "?c < mx ?t" using Suc.prems by simp
  have cond: "ctrCur s ?t < ctrMax s ?t \<or> ctrMax s ?t < 0" using lt Suc.prems(2) by auto
  have nf: "\<not> (StopFlag s \<and> ?t = StopLevel s)" using Suc.prems(3) by auto
  have idle: "stepCount (?t = StopLevel s) s = s"
    using Suc.prems(3) by (intro stepCount_idle) auto
  have s2: "settled st (Suc d) (stepCount (?t = StopLevel s) s)" using Suc.prems(1) idle by simp
  have sub': "\<exists>w. runsTo st (Suc d) s' True (s'\<lparr>World := w\<rparr>) sub"
    if "settled st (Suc d) s'" "ctrMax s' = ctrMax s" for s'
    using sub that Suc.prems(2) by simp
  obtain w where w: "\<forall>b s' e'.
       runsTo st d (setCur ?t (?c + 1) (s\<lparr>World := w\<rparr>)) b s' e' \<longrightarrow>
       runsTo st d s b s' (iterEvents d loop sub ?c @ doneEvents d ?t (IsDone loop) s @ e')"
    using tame_iteration [OF d loop fr sub' cond nf s2] quiet unfolding idle by auto
  let ?n = "setCur ?t (?c + 1) (s\<lparr>World := w\<rparr>)"
  have n1: "settled st (Suc d) ?n" using Suc.prems(1) by (simp add: settled_setCur [OF dist d])
  have n2: "ctrMax ?n = mx" using Suc.prems(2) by (auto simp add: fun_eq_iff)
  have n3: "StopFlag ?n \<or> StopNext ?n \<longrightarrow> StopLevel ?n \<noteq> ?t"
    using Suc.prems(3) by (simp add: setCur_def)
  have n4: "ctrCur ?n ?t = ?c + 1" by simp
  have n5: "n = nat (mx ?t - ctrCur ?n ?t)" using Suc.prems(6) n4 by simp
  obtain w' where w': "runsTo st d ?n True ((setCur ?t 0 ?n)\<lparr>World := w'\<rparr>)
      (loopEvents d loop sub (?c + 1) (mx ?t))"
    using Suc.IH [OF n1 n2 n3 _ _ n5] n4 Suc.prems(4) lt by auto
  have fs: "(setCur ?t 0 ?n)\<lparr>World := w'\<rparr> = (setCur ?t 0 s)\<lparr>World := w'\<rparr>"
    by (simp add: setCur_def)
  have "runsTo st d s True ((setCur ?t 0 s)\<lparr>World := w'\<rparr>)
      (iterEvents d loop sub ?c @ doneEvents d ?t (IsDone loop) s @ loopEvents d loop sub (?c + 1) (mx ?t))"
    using w w' fs by simp
  then show ?case
    using loopEvents_step [OF Suc.prems(4) lt, of d loop sub]
    by (intro exI [of _ w']) (simp add: doneEvents_doneNames)
qed

lemma tame_levels:
  assumes dist: "distinct (Order st)"
  shows "tame st d \<Longrightarrow> settled st d s \<Longrightarrow> d \<le> length (Order st) \<Longrightarrow> n = length (Order st) - d \<Longrightarrow>
    \<exists>w. runsTo st d s True (s\<lparr>World := w\<rparr>) (fullTrace st (ctrMax s) d (drop d (Order st)))"
proof (induction n arbitrary: d s)
  case 0
  then have "length (Order st) \<le> d" by simp
  then have "runsTo st d s True s []" by (rule runsTo_bottom)
  moreover have "s\<lparr>World := World s\<rparr> = s" by simp
  ultimately show ?case using 0 by (intro exI [of _ "World s"]) simp
next
  case (Suc n)
  let ?t = "Order st ! d"
  have d: "d < length (Order st)" using Suc.prems by simp
  have dr: "drop d (Order st) = ?t # drop (Suc d) (Order st)"
    using d by (simp add: Cons_nth_drop_Suc)
  obtain loop where loop: "Loops st ?t = Some loop" and fr: "framedLoop loop"
    and quiet: "\<forall>p\<in>set (IsDone loop). \<forall>s. \<not> snd p s"
    using Suc.prems(1) d unfolding tame_def by (cases "Loops st ?t") force+
  have tame': "tame st (Suc d)" using Suc.prems(1) unfolding tame_def by simp
  have st': "settled st (Suc d) s" and fl: "StopFlag s \<or> StopNext s \<longrightarrow> StopLevel s \<noteq> ?t"
    and c0: "ctrCur s ?t = 0" and m0: "0 < ctrMax s ?t"
    using Suc.prems(2) d unfolding settled_def dr by (auto simp add: dr)
  have sub: "\<exists>w. runsTo st (Suc d) s' True (s'\<lparr>World := w\<rparr>)
        (fullTrace st (ctrMax s) (Suc d) (drop (Suc d) (Order st)))"
    if "settled st (Suc d) s'" "ctrMax s' = ctrMax s" for s'
    using Suc.IH [OF tame' that(1)] d Suc.prems(4) that(2) by simp
  obtain w where "runsTo st d s True ((setCur ?t 0 s)\<lparr>World := w\<rparr>)
      (loopEvents d loop (fullTrace st (ctrMax s) (Suc d) (drop (Suc d) (Order st)))
         (ctrCur s ?t) (ctrMax s ?t))"
    using tame_loop [OF d loop fr quiet dist sub st' refl fl _ _ refl] c0 m0 by auto
  then show ?case
    by (intro exI [of _ w]) (simp add: dr loop c0 setCur_same)
qed

section \<open>Counting the callbacks of a complete run\<close>

lemma firedNames_append [simp]: "firedNames lvl k (a @ b) = firedNames lvl k a @ firedNames lvl k b"
  by (simp add: firedNames_def)

lemma firedNames_Nil [simp]: "firedNames lvl k [] = []"
  by (simp add: firedNames_def)

lemma firedNames_concat: "firedNames lvl k (concat xss) = concat (map (firedNames lvl k) xss)"
  by (induction xss) simp_all

lemma firedNames_hookNames [simp]:
  "firedNames lvl k (hookNames d c k' hs) = (if lvl = d \<and> k = k' then map Name hs else [])"
  by (induction hs) (auto simp add: firedNames_def hookNames_def)

lemma firedNames_doneNames [simp]: "k \<noteq> IsDoneK \<Longrightarrow> firedNames lvl k (doneNames d c ps) = []"
  by (induction ps) (auto simp add: firedNames_def doneNames_def)

lemma firedNames_phaseEvents [simp]:
  "k \<in> {OnStartK, MainK, OnEndK} \<Longrightarrow> firedNames lvl k (phaseEvents d c a i ps) = []"
  by (induction ps arbitrary: a i) auto

lemma firedNames_levels:
  "\<forall>e\<in>set tr. lvl < ev_level e \<Longrightarrow> firedNames lvl k tr = []"
  by (induction tr) (auto simp add: firedNames_def)

lemma level_hookNames: "e \<in> set (hookNames d c k hs) \<Longrightarrow> ev_level e = d"
  by (auto simp add: hookNames_def)

lemma level_doneNames: "e \<in> set (doneNames d c ps) \<Longrightarrow> ev_level e = d"
  by (auto simp add: doneNames_def)

lemma level_phaseEvents: "e \<in> set (phaseEvents d c a i ps) \<Longrightarrow> ev_level e = d"
  by (induction ps arbitrary: a i) (auto simp add: level_hookNames split: if_splits)

lemma level_fullTrace: "e \<in> set (fullTrace st mx d ts) \<Longrightarrow> d \<le> ev_level e"
proof (induction ts arbitrary: d e)
  case Nil
  then show ?case by simp
next
  case (Cons t ts)
  show ?case
  proof (cases "Loops st t")
    case None
    then show ?thesis using Cons.prems by simp
  next
    case (Some loop)
    then obtain i where "e \<in> set (iterEvents d loop (fullTrace st mx (Suc d) ts) (int i)
        @ doneNames d (int i) (IsDone loop))"
      using Cons.prems by (auto simp add: loopEvents_def)
    then consider "ev_level e = d" | "e \<in> set (fullTrace st mx (Suc d) ts)"
      by (auto simp add: iterEvents_def level_hookNames level_doneNames level_phaseEvents)
    then show ?thesis
    proof cases
      case 1
      then show ?thesis by simp
    next
      case 2
      then have "Suc d \<le> ev_level e" by (rule Cons.IH)
      then show ?thesis by simp
    qed
  qed
qed


lemma firedNames_loopEvents:
  assumes "\<And>i. firedNames lvl k (iterEvents d loop sub (int i) @ doneNames d (int i) (IsDone loop)) = ns"
  shows "firedNames lvl k (loopEvents d loop sub 0 m) = concat (replicate (nat m) ns)"
proof -
  have "map (firedNames lvl k)
          (map (\<lambda>i. iterEvents d loop sub (int i) @ doneNames d (int i) (IsDone loop)) [0..<nat m]) =
        replicate (nat m) ns"
    using assms by (simp add: map_replicate_const comp_def del: firedNames_append)
  then show ?thesis by (simp add: loopEvents_def firedNames_concat del: firedNames_append)
qed




lemma framed_tally: "framed (tally n)"
  unfolding framed_def tally_def by auto

lemma framedLoop_plainLoop: "framedLoop (plainLoop n)"
  by (simp add: framedLoop_def plainLoop_def framed_tally)



lemma cut_loop:
  assumes d: "d < length (Order st)" and loop: "Loops st (Order st ! d) = Some loop"
    and fr: "framedLoop loop" and dist: "distinct (Order st)"
    and sub: "\<And>s'. settled st (Suc d) s' \<Longrightarrow> ctrMax s' = mx \<Longrightarrow>
                \<exists>w. runsTo st (Suc d) s' True (s'\<lparr>World := w\<rparr>) sub"
    and preds: "\<And>s'. (\<exists>p\<in>set (IsDone loop). snd p s') = (j \<le> ctrCur s' (Order st ! d))"
    and room: "mx (Order st ! d) < 0 \<or> j < mx (Order st ! d)"
  shows "settled st (Suc d) s \<Longrightarrow> ctrMax s = mx \<Longrightarrow>
    (StopFlag s \<or> StopNext s \<longrightarrow> StopLevel s \<noteq> Order st ! d) \<Longrightarrow>
    0 \<le> ctrCur s (Order st ! d) \<Longrightarrow> ctrCur s (Order st ! d) \<le> j \<Longrightarrow>
    n = nat (j - ctrCur s (Order st ! d)) \<Longrightarrow>
    \<exists>w s7. runsTo st d s True ((setCur (Order st ! d) 0 s)\<lparr>World := w\<rparr>)
           (loopEvents d loop sub (ctrCur s (Order st ! d)) j @ iterEvents d loop sub j
            @ doneNames d j (evaluated (IsDone loop) s7))
         \<and> (\<exists>p\<in>set (IsDone loop). snd p s7)"
proof (induction n arbitrary: s)
  case 0
  let ?t = "Order st ! d"
  have eq: "ctrCur s ?t = j" using 0 by simp
  have cond: "ctrCur s ?t < ctrMax s ?t \<or> ctrMax s ?t < 0" using room eq 0(2) by auto
  have nf: "\<not> (StopFlag s \<and> ?t = StopLevel s)" using 0(3) by auto
  have idle: "stepCount (?t = StopLevel s) s = s"
    using 0(3) by (intro stepCount_idle) auto
  have s2: "settled st (Suc d) (stepCount (?t = StopLevel s) s)" using 0(1) idle by simp
  have sub': "\<exists>w. runsTo st (Suc d) s' True (s'\<lparr>World := w\<rparr>) sub"
    if "settled st (Suc d) s'" "ctrMax s' = ctrMax s" for s'
    using sub that 0(2) by simp
  have fires: "\<exists>p\<in>set (IsDone loop). snd p (s\<lparr>World := w\<rparr>)" for w
    using preds [of "s\<lparr>World := w\<rparr>"] eq by simp
  obtain w where w: "runsTo st d s True (setCur ?t 0 (s\<lparr>World := w\<rparr>))
      (iterEvents d loop sub (ctrCur s ?t) @ doneEvents d ?t (evaluated (IsDone loop) (s\<lparr>World := w\<rparr>)) s)"
    using tame_iteration [OF d loop fr sub' cond nf s2] fires unfolding idle by auto
  have "runsTo st d s True ((setCur ?t 0 s)\<lparr>World := w\<rparr>)
      (loopEvents d loop sub (ctrCur s ?t) j @ iterEvents d loop sub j
       @ doneNames d j (evaluated (IsDone loop) (s\<lparr>World := w\<rparr>)))"
    using w eq by (simp add: loopEvents_empty doneEvents_doneNames setCur_World)
  then show ?case using fires by blast
next
  case (Suc n)
  let ?t = "Order st ! d"
  let ?c = "ctrCur s ?t"
  have lt: "?c < j" using Suc.prems by simp
  have cond: "ctrCur s ?t < ctrMax s ?t \<or> ctrMax s ?t < 0" using room lt Suc.prems(2) by auto
  have nf: "\<not> (StopFlag s \<and> ?t = StopLevel s)" using Suc.prems(3) by auto
  have idle: "stepCount (?t = StopLevel s) s = s"
    using Suc.prems(3) by (intro stepCount_idle) auto
  have s2: "settled st (Suc d) (stepCount (?t = StopLevel s) s)" using Suc.prems(1) idle by simp
  have sub': "\<exists>w. runsTo st (Suc d) s' True (s'\<lparr>World := w\<rparr>) sub"
    if "settled st (Suc d) s'" "ctrMax s' = ctrMax s" for s'
    using sub that Suc.prems(2) by simp
  have quiet: "\<not> (\<exists>p\<in>set (IsDone loop). snd p (s\<lparr>World := w\<rparr>))" for w
    using preds [of "s\<lparr>World := w\<rparr>"] lt by simp
  obtain w where w: "\<forall>b s' e'.
       runsTo st d (setCur ?t (?c + 1) (s\<lparr>World := w\<rparr>)) b s' e' \<longrightarrow>
       runsTo st d s b s' (iterEvents d loop sub ?c @ doneEvents d ?t (IsDone loop) s @ e')"
    using tame_iteration [OF d loop fr sub' cond nf s2] quiet unfolding idle by auto
  let ?n = "setCur ?t (?c + 1) (s\<lparr>World := w\<rparr>)"
  have n1: "settled st (Suc d) ?n" using Suc.prems(1) by (simp add: settled_setCur [OF dist d])
  have n2: "ctrMax ?n = mx" using Suc.prems(2) by (auto simp add: fun_eq_iff)
  have n3: "StopFlag ?n \<or> StopNext ?n \<longrightarrow> StopLevel ?n \<noteq> ?t"
    using Suc.prems(3) by (simp add: setCur_def)
  have n4: "ctrCur ?n ?t = ?c + 1" by simp
  have n5: "n = nat (j - ctrCur ?n ?t)" using Suc.prems(6) n4 by simp
  obtain w' s7 where w': "runsTo st d ?n True ((setCur ?t 0 ?n)\<lparr>World := w'\<rparr>)
      (loopEvents d loop sub (?c + 1) j @ iterEvents d loop sub j
       @ doneNames d j (evaluated (IsDone loop) s7))"
    and s7: "\<exists>p\<in>set (IsDone loop). snd p s7"
    using Suc.IH [OF n1 n2 n3 _ _ n5] n4 Suc.prems(4) lt by auto
  have fs: "(setCur ?t 0 ?n)\<lparr>World := w'\<rparr> = (setCur ?t 0 s)\<lparr>World := w'\<rparr>"
    by (simp add: setCur_def)
  have "runsTo st d s True ((setCur ?t 0 s)\<lparr>World := w'\<rparr>)
      (iterEvents d loop sub ?c @ doneEvents d ?t (IsDone loop) s
       @ loopEvents d loop sub (?c + 1) j @ iterEvents d loop sub j
       @ doneNames d j (evaluated (IsDone loop) s7))"
    using w w' fs by simp
  then have "runsTo st d s True ((setCur ?t 0 s)\<lparr>World := w'\<rparr>)
      (loopEvents d loop sub ?c j @ iterEvents d loop sub j
       @ doneNames d j (evaluated (IsDone loop) s7))"
    using loopEvents_step [OF Suc.prems(4) lt, of d loop sub]
    by (simp add: doneEvents_doneNames)
  then show ?case using s7 by blast
qed

section \<open>A predicate that ends a level\<close>

lemma doneRounds_append [simp]: "doneRounds lvl (a @ b) = doneRounds lvl a \<union> doneRounds lvl b"
  by (simp add: doneRounds_def)

lemma doneRounds_Nil [simp]: "doneRounds lvl [] = {}"
  by (simp add: doneRounds_def)

lemma doneRounds_hookNames [simp]: "k \<noteq> IsDoneK \<Longrightarrow> doneRounds lvl (hookNames d c k hs) = {}"
  by (simp add: doneRounds_def hookNames_def filter_empty_conv)

lemma doneRounds_phaseEvents [simp]: "doneRounds lvl (phaseEvents d c a i ps) = {}"
  by (induction ps arbitrary: a i) simp_all

lemma doneRounds_doneNames [simp]:
  "doneRounds d (doneNames d c ps) = (if ps = [] then {} else {c})"
  by (induction ps) (auto simp add: doneRounds_def doneNames_def)

lemma doneRounds_levels: "\<forall>e\<in>set tr. lvl < ev_level e \<Longrightarrow> doneRounds lvl tr = {}"
  by (auto simp add: doneRounds_def filter_empty_conv)

lemma doneRounds_iterEvents:
  "\<forall>e\<in>set sub. d < ev_level e \<Longrightarrow> doneRounds d (iterEvents d loop sub c) = {}"
  by (simp add: iterEvents_def doneRounds_levels)

lemma doneRounds_loopEvents:
  assumes "\<forall>e\<in>set sub. d < ev_level e" and "0 \<le> c"
  shows "doneRounds d (loopEvents d loop sub c j) = (if IsDone loop = [] then {} else {c..<j})"
proof -
  have "doneRounds d (concat (map (\<lambda>i. iterEvents d loop sub (int i) @ doneNames d (int i) (IsDone loop)) is)) =
      (if IsDone loop = [] then {} else int ` set is)" for "is"
    using assms(1) by (induction "is") (auto simp add: doneRounds_iterEvents)
  moreover have "int ` set [nat c..<nat j] = {c..<j}"
  proof
    show "int ` set [nat c..<nat j] \<subseteq> {c..<j}" using assms(2) by auto
    show "{c..<j} \<subseteq> int ` set [nat c..<nat j]"
    proof
      fix x assume "x \<in> {c..<j}"
      then have "nat x \<in> set [nat c..<nat j]" and "int (nat x) = x" using assms(2) by auto
      then show "x \<in> int ` set [nat c..<nat j]" by (metis imageI)
    qed
  qed
  ultimately show ?thesis by (simp add: loopEvents_def)
qed

lemma firedNames_iterEvents:
  assumes "\<forall>e\<in>set sub. d < ev_level e" and "K \<in> {OnStartK, MainK, OnEndK}"
  shows "firedNames d K (iterEvents d loop sub c) = map Name (listOf K loop)"
  using assms by (auto simp add: iterEvents_def listOf_def firedNames_levels)

lemma evaluated_nonempty: "\<exists>p\<in>set ps. snd p s \<Longrightarrow> evaluated ps s \<noteq> []"
  by (induction ps) auto

lemma concat_replicate_Suc: "concat (replicate n xs) @ xs = concat (replicate (Suc n) xs)"
  by (induction n) simp_all

lemma cut_level:
  assumes dist: "distinct (Order st)" and d: "d < length (Order st)"
    and loop: "Loops st (Order st ! d) = Some loop" and fr: "framedLoop loop"
    and tame: "tame st (Suc d)" and settled: "settled st (Suc d) s"
    and flags: "StopFlag s \<or> StopNext s \<longrightarrow> StopLevel s \<noteq> Order st ! d"
    and cur: "ctrCur s (Order st ! d) = 0" and k: "0 < k"
    and room: "ctrMax s (Order st ! d) < 0 \<or> k \<le> ctrMax s (Order st ! d)"
    and preds: "\<And>s'. (\<exists>p\<in>set (IsDone loop). snd p s') = (k - 1 \<le> ctrCur s' (Order st ! d))"
    and K: "K \<in> {OnStartK, MainK, OnEndK}"
  shows "\<exists>fuel s' tr. runLevel fuel st d (s, []) = Some (Inr (True, s', tr))
      \<and> ctrCur s' (Order st ! d) = 0
      \<and> firedNames d K tr = concat (replicate (nat k) (map Name (listOf K loop)))
      \<and> doneRounds d tr = {0..<k}"
proof -
  let ?t = "Order st ! d"
  let ?sub = "fullTrace st (ctrMax s) (Suc d) (drop (Suc d) (Order st))"
  have sub: "\<exists>w. runsTo st (Suc d) s' True (s'\<lparr>World := w\<rparr>) ?sub"
    if "settled st (Suc d) s'" "ctrMax s' = ctrMax s" for s'
    using tame_levels [OF dist tame that(1) _ refl] d that(2) by simp
  have lev: "\<forall>e\<in>set ?sub. d < ev_level e"
    using level_fullTrace [of _ st "ctrMax s" "Suc d"] by fastforce
  have room': "ctrMax s ?t < 0 \<or> k - 1 < ctrMax s ?t" using room by auto
  obtain w s7 where run: "runsTo st d s True ((setCur ?t 0 s)\<lparr>World := w\<rparr>)
           (loopEvents d loop ?sub (ctrCur s ?t) (k - 1) @ iterEvents d loop ?sub (k - 1)
            @ doneNames d (k - 1) (evaluated (IsDone loop) s7))"
      and s7: "\<exists>p\<in>set (IsDone loop). snd p s7"
    using cut_loop [OF d loop fr dist sub preds room' settled refl flags _ _ refl] cur k by auto
  let ?tr = "loopEvents d loop ?sub 0 (k - 1) @ iterEvents d loop ?sub (k - 1)
            @ doneNames d (k - 1) (evaluated (IsDone loop) s7)"
  obtain fuel where fuel: "runLevel fuel st d (s, []) = Some (Inr (True, (setCur ?t 0 s)\<lparr>World := w\<rparr>, ?tr))"
    using run cur unfolding runsTo_def by (metis append_Nil)
  have c0: "ctrCur ((setCur ?t 0 s)\<lparr>World := w\<rparr>) ?t = 0" by simp
  have kd: "K \<noteq> IsDoneK" using K by auto
  have one: "firedNames d K (iterEvents d loop ?sub (int i) @ doneNames d (int i) (IsDone loop)) =
      map Name (listOf K loop)" for i
    using firedNames_iterEvents [OF lev K] kd by simp
  have "firedNames d K ?tr =
      concat (replicate (nat (k - 1)) (map Name (listOf K loop))) @ map Name (listOf K loop)"
    using firedNames_loopEvents [of d K d loop ?sub "map Name (listOf K loop)" "k - 1", OF one]
      firedNames_iterEvents [OF lev K] kd by simp
  moreover have "Suc (nat (k - 1)) = nat k" using k by simp
  ultimately have names: "firedNames d K ?tr = concat (replicate (nat k) (map Name (listOf K loop)))"
    by (simp only: concat_replicate_Suc)
  have ne: "IsDone loop \<noteq> []" using s7 by auto
  have "doneRounds d ?tr = {0..<k - 1} \<union> {k - 1}"
    using doneRounds_loopEvents [OF lev, of 0 loop "k - 1"] doneRounds_iterEvents [OF lev, of loop "k - 1"]
      evaluated_nonempty [OF s7] ne by simp
  also have "\<dots> = {0..<k}" using k by auto
  finally have rounds: "doneRounds d ?tr = {0..<k}" .
  show ?thesis using fuel c0 names rounds by blast
qed

text \<open>
  C7.  A level at depth \<open>d\<close> whose counter stands at 0 and whose maximum is at
  least \<open>k\<close> (10 in the claim, with \<open>k = 3\<close>); its predicates are such that
  one of them holds exactly when the counter has reached \<open>k - 1\<close>, that is after
  the \<open>k\<close>-th completed inner iteration.  The levels below are tame and at rest,
  and no stop or step request names this level.  Then \<open>runLevel\<close> returns true
  with the counter at 0, the \<open>OnEnd\<close> list has fired \<open>k\<close> times in order, and
  the predicates were called at the counter values 0 to \<open>k - 1\<close> and at no other.
\<close>

theorem predicate_ends_level_early:
  assumes "distinct (Order st)" and "d < length (Order st)"
    and "Loops st (Order st ! d) = Some loop" and "framedLoop loop"
    and "tame st (Suc d)" and "settled st (Suc d) s"
    and "StopFlag s \<or> StopNext s \<longrightarrow> StopLevel s \<noteq> Order st ! d"
    and "ctrCur s (Order st ! d) = 0" and "0 < k" and "k \<le> ctrMax s (Order st ! d)"
    and "\<forall>s'. (\<exists>p\<in>set (IsDone loop). snd p s') = (k - 1 \<le> ctrCur s' (Order st ! d))"
  shows "\<exists>fuel s' tr. runLevel fuel st d (s, []) = Some (Inr (True, s', tr))
      \<and> ctrCur s' (Order st ! d) = 0
      \<and> firedNames d OnEndK tr = concat (replicate (nat k) (map Name (OnEnd loop)))
      \<and> doneRounds d tr = {0..<k}"
proof -
  have "ctrMax s (Order st ! d) < 0 \<or> k \<le> ctrMax s (Order st ! d)" using assms(10) by simp
  then show ?thesis
    using cut_level [OF assms(1-9) _ _, of OnEndK] assms(11) by (simp add: listOf_def)
qed

text \<open>
  C8.  The same level with a negative maximum: the loop condition never fails,
  yet \<open>runLevel\<close> returns (with enough fuel) once a predicate holds after the
  \<open>k\<close>-th iteration (7 in the claim): exactly \<open>k\<close> iterations were started,
  the predicates were called at the counter values 0 to \<open>k - 1\<close>, and the counter
  is 0 again.
\<close>

theorem unbounded_level_terminates:
  assumes "distinct (Order st)" and "d < length (Order st)"
    and "Loops st (Order st ! d) = Some loop" and "framedLoop loop"
    and "tame st (Suc d)" and "settled st (Suc d) s"
    and "StopFlag s \<or> StopNext s \<longrightarrow> StopLevel s \<noteq> Order st ! d"
    and "ctrCur s (Order st ! d) = 0" and "0 < k" and "ctrMax s (Order st ! d) < 0"
    and "\<forall>s'. (\<exists>p\<in>set (IsDone loop). snd p s') = (k - 1 \<le> ctrCur s' (Order st ! d))"
  shows "\<exists>fuel s' tr. runLevel fuel st d (s, []) = Some (Inr (True, s', tr))
      \<and> ctrCur s' (Order st ! d) = 0
      \<and> firedNames d OnStartK tr = concat (replicate (nat k) (map Name (OnStart loop)))
      \<and> doneRounds d tr = {0..<k}"
proof -
  have "ctrMax s (Order st ! d) < 0 \<or> k \<le> ctrMax s (Order st ! d)" using assms(10) by simp
  then show ?thesis
    using cut_level [OF assms(1-9) _ _, of OnStartK] assms(11) by (simp add: listOf_def)
qed

section \<open>Stepping\<close>



lemma tame_Suc: "tame st d \<Longrightarrow> tame st (Suc d)"
  by (simp add: tame_def)



lemma haltedAt_World [simp]: "haltedAt t d c w (s\<lparr>World := v\<rparr>) = haltedAt t d c w s"
  by (simp add: haltedAt_def setCur_def)









lemma framedLoop_IsDone [simp]: "framedLoop (l\<lparr>IsDone := ps\<rparr>) = framedLoop l"
  by (simp add: framedLoop_def)

lemma tame_epochsUntil: "tame (epochsUntil j) (Suc 0)"
proof -
  have "IsDone (plainLoop n) = []" for n by (simp add: plainLoop_def)
  then show ?thesis
    using framedLoop_plainLoop [of "''Trial''"]
    by (auto simp add: tame_def epochsUntil_def less_Suc_eq)
qed

lemma settled_epochsUntil: "settled (epochsUntil j) (Suc 0) (idle (maxEpoch m))"
  by (auto simp add: settled_def epochsUntil_def idle_def ctrCur_def ctrMax_def maxEpoch_def less_Suc_eq)

theorem predicate_ends_level_early_witness:
  "\<exists>fuel s' tr. runLevel fuel (epochsUntil 2) 0 (idle (maxEpoch 10), []) = Some (Inr (True, s', tr))
     \<and> ctrCur s' ''Epoch'' = 0
     \<and> firedNames 0 OnEndK tr = [''Epoch.end'', ''Epoch.end'', ''Epoch.end'']
     \<and> doneRounds 0 tr = {0..<3}"
proof -
  let ?st = "epochsUntil 2"
  let ?l = "(plainLoop ''Epoch'')\<lparr>IsDone := [enough ''Epoch'' 2]\<rparr>"
  let ?s = "idle (maxEpoch 10)"
  have h: "distinct (Order ?st)" "0 < length (Order ?st)" "Loops ?st (Order ?st ! 0) = Some ?l"
    "framedLoop ?l"
    by (simp_all add: epochsUntil_def framedLoop_plainLoop)
  have g: "StopFlag ?s \<or> StopNext ?s \<longrightarrow> StopLevel ?s \<noteq> Order ?st ! 0"
    "ctrCur ?s (Order ?st ! 0) = 0" "(0::int) < 3" "3 \<le> ctrMax ?s (Order ?st ! 0)"
    "\<forall>s'. (\<exists>p\<in>set (IsDone ?l). snd p s') = (3 - 1 \<le> ctrCur s' (Order ?st ! 0))"
    by (simp_all add: epochsUntil_def idle_def ctrCur_def ctrMax_def maxEpoch_def enough_def)
  obtain fuel s' tr where "runLevel fuel ?st 0 (?s, []) = Some (Inr (True, s', tr))"
    "ctrCur s' (Order ?st ! 0) = 0"
    "firedNames 0 OnEndK tr = concat (replicate (nat 3) (map Name (OnEnd ?l)))"
    "doneRounds 0 tr = {0..<3}"
    using predicate_ends_level_early [OF h tame_epochsUntil settled_epochsUntil g] by blast
  then show ?thesis
    by (intro exI [of _ fuel] exI [of _ s'] exI [of _ tr])
       (simp add: epochsUntil_def plainLoop_def tally_def eval_nat_numeral)
qed

theorem unbounded_level_terminates_witness:
  "\<exists>fuel s' tr. runLevel fuel (epochsUntil 6) 0 (idle (maxEpoch (- 1)), []) = Some (Inr (True, s', tr))
     \<and> ctrCur s' ''Epoch'' = 0
     \<and> firedNames 0 OnStartK tr = replicate 7 ''Epoch.start''
     \<and> doneRounds 0 tr = {0..<7}"
proof -
  let ?st = "epochsUntil 6"
  let ?l = "(plainLoop ''Epoch'')\<lparr>IsDone := [enough ''Epoch'' 6]\<rparr>"
  let ?s = "idle (maxEpoch (- 1))"
  have h: "distinct (Order ?st)" "0 < length (Order ?st)" "Loops ?st (Order ?st ! 0) = Some ?l"
    "framedLoop ?l"
    by (simp_all add: epochsUntil_def framedLoop_plainLoop)
  have g: "StopFlag ?s \<or> StopNext ?s \<longrightarrow> StopLevel ?s \<noteq> Order ?st ! 0"
    "ctrCur ?s (Order ?st ! 0) = 0" "(0::int) < 7" "ctrMax ?s (Order ?st ! 0) < 0"
    "\<forall>s'. (\<exists>p\<in>set (IsDone ?l). snd p s') = (7 - 1 \<le> ctrCur s' (Order ?st ! 0))"
    by (simp_all add: epochsUntil_def idle_def ctrCur_def ctrMax_def maxEpoch_def enough_def)
  obtain fuel s' tr where "runLevel fuel ?st 0 (?s, []) = Some (Inr (True, s', tr))"
    "ctrCur s' (Order ?st ! 0) = 0"
    "firedNames 0 OnStartK tr = concat (replicate (nat 7) (map Name (OnStart ?l)))"
    "doneRounds 0 tr = {0..<7}"
    using unbounded_level_terminates [OF h tame_epochsUntil settled_epochsUntil g] by blast
  then show ?thesis
    by (intro exI [of _ fuel] exI [of _ s'] exI [of _ tr])
       (simp add: epochsUntil_def plainLoop_def tally_def eval_nat_numeral)
qed

section \<open>Stopping and resuming\<close>








lemma asidePhases_append [simp]: "asidePhases d (a @ b) = asidePhases d a @ asidePhases d b"
  by (simp add: asidePhases_def)

lemma asidePhases_Nil [simp]: "asidePhases d [] = []"
  by (simp add: asidePhases_def)

lemma asidePhases_hookNames:
  "k \<in> {OnStartK, MainK, OnEndK} \<Longrightarrow> asidePhases d (hookNames e c k hs) = hookNames e c k hs"
  by (auto simp add: asidePhases_def hookNames_def filter_id_conv)









end
